theory Spec2Isabelle
  imports Main "HOL-Library.Word" "HOL-Library.Multiset"
begin

unbundle bit_operations_syntax

section \<open>Data model of hashMatcher.cpp\<close>

text \<open>
  \<^verbatim>\<open>struct Node { uint64_t dbId; uint64_t pHash; Node(uint64_t dbId, uint64_t pHash) }\<close>:
  the constructor stores its first argument in \<open>dbId\<close> and its second in \<open>pHash\<close>.
\<close>

record Node =
  dbId :: "64 word"
  pHash :: "64 word"

text \<open>
  \<^verbatim>\<open>struct Match { uint64_t dbId; int distance; }\<close>. The distance is a C \<open>int\<close>; every
  value the program stores there is a population count between 0 and 64, so the
  mathematical integers model it without wrap-around.
\<close>

record Match =
  dbId :: "64 word"
  distance :: int

text \<open>
  What the program can do besides returning: \<open>exit(code)\<close>, and an access outside the
  array \<open>GBLnodeLists\<close> (undefined behaviour in C++, a fault of the model).
\<close>

datatype fault = Exit nat | OutOfBounds

text \<open>Lines written to stdout and stderr, kept as events rather than as formatted text.\<close>

datatype diag =
    WillSearch "64 word" "8 word"
  | WillAdd "64 word" "64 word"
  | InvalidCommand
  | CouldntSend
  | CommandTooLong
  | RecvPerror

text \<open>
  The globals of the program (\<open>GBLnumCores\<close>, \<open>GBLnodeLists\<close>, \<open>GBLsearchResults\<close>)
  together with what a command writes: the bytes that \<open>send\<close> has put on each
  descriptor, and the diagnostics. A \<open>std::list<Node>\<close> is a list whose head is the
  front of the list.
\<close>

record state =
  GBLnumCores :: "32 word"
  GBLnodeLists :: "Node list list"
  GBLsearchResults :: "Match list"
  sock_out :: "int \<Rightarrow> string"
  diags :: "diag list"

text \<open>
  The environment of one run: which worker thread the operating system lets take its next
  step (given what every worker still has to scan), the return code of the
  \<open>pthread_create\<close> for worker \<open>i\<close>, and the return value of \<open>send\<close> (given the
  descriptor, the bytes sent on it so far and the buffer to send).

  \<open>acceptedSocket\<close> is the variable of that name that \<open>processCommand\<close> sends on. It is
  not the \<open>acceptedSocket\<close> of \<open>main\<close>, which is local to the body of the loop of
  \<open>main\<close>, and it is not the parameter \<open>socket\<close>; its declaration is in
  \<open>hashMatcher.h\<close>, which is not among the sources, and nothing in the program assigns
  it. Its value is therefore a parameter of the run.
\<close>

record env =
  sched :: "Node list list \<Rightarrow> nat"
  pthread_create_rc :: "nat \<Rightarrow> int"
  send_rc :: "int \<Rightarrow> string \<Rightarrow> string \<Rightarrow> int"
  acceptedSocket :: int

text \<open>
  \<open>main\<close>: \<open>GBLnumCores\<close> is at least 1 and \<open>GBLnodeLists\<close> is an array of that many
  empty lists.
\<close>

definition init_state :: "32 word \<Rightarrow> state" where
  "init_state n =
     \<lparr>GBLnumCores = n, GBLnodeLists = replicate (unat n) [],
      GBLsearchResults = [], sock_out = (\<lambda>fd. []), diags = []\<rparr>"

definition store_ok :: "state \<Rightarrow> bool" where
  "store_ok w = (GBLnumCores w \<noteq> 0 \<and> length (GBLnodeLists w) = unat (GBLnumCores w))"

section \<open>searchThread and search\<close>

text \<open>
  \<open>__builtin_popcountl\<close> on an LP64 target: the number of 1-bits of a 64-bit value.
\<close>

definition popcountl :: "64 word \<Rightarrow> int" where
  "popcountl x = int (length (filter (bit x) [0..<64]))"

text \<open>
  Lines 280-281 of \<open>searchThread\<close>:
  \<^verbatim>\<open>bitsToCount = queryHash ^ it->pHash; distance = __builtin_popcountl(bitsToCount);\<close>
\<close>

definition hamming :: "64 word \<Rightarrow> 64 word \<Rightarrow> int" where
  "hamming queryHash h = (let bitsToCount = queryHash XOR h in popcountl bitsToCount)"

text \<open>
  One iteration of the loop of \<open>searchThread\<close>: the append happens under the mutex, so
  it is one atomic step on the shared vector.
\<close>

definition scan_node :: "64 word \<Rightarrow> int \<Rightarrow> Node \<Rightarrow> Match list \<Rightarrow> Match list" where
  "scan_node queryHash maxDistance nd results =
     (let distance = hamming queryHash (pHash nd)
      in if distance \<le> maxDistance
         then results @ [\<lparr>Match.dbId = Node.dbId nd, distance = distance\<rparr>]
         else results)"

text \<open>The workers that have not reached the end of their list.\<close>

definition runnable :: "Node list list \<Rightarrow> nat list" where
  "runnable ws = filter (\<lambda>i. ws ! i \<noteq> []) [0..<length ws]"

lemma runnable_mem: "i \<in> set (runnable ws) \<Longrightarrow> i < length ws \<and> ws ! i \<noteq> []"
  by (simp add: runnable_def)

lemma length_concat_update:
  "i < length ws \<Longrightarrow> ws ! i = x # rest \<Longrightarrow>
   length (concat (ws[i := rest])) < length (concat ws)"
proof (induction ws arbitrary: i)
  case Nil
  then show ?case by simp
next
  case (Cons a ws)
  then show ?case by (cases i) auto
qed

text \<open>
  The threads of one \<open>search\<close>, run to completion: \<open>ws\<close> holds, for each worker, the part
  of its list from its iterator to the end. At each step the scheduler names one of the
  runnable workers (its answer is taken modulo their number), which scans the node under
  its iterator and advances. The join returns when no worker is runnable. The lists only
  shrink, so no state of a run comes twice, and a scheduler that sees the state can make
  any sequence of choices. All workers are runnable from the start: a run in which a
  worker scans before the later threads are created is one of these runs.
\<close>

function run_workers ::
  "(Node list list \<Rightarrow> nat) \<Rightarrow> 64 word \<Rightarrow> int \<Rightarrow> Node list list \<Rightarrow> Match list \<Rightarrow> Match list"
where
  "run_workers sch queryHash maxDistance ws results =
     (if runnable ws = [] then results
      else
        let i = runnable ws ! (sch ws mod length (runnable ws))
        in case ws ! i of
             [] \<Rightarrow> results
           | nd # rest \<Rightarrow>
               run_workers sch queryHash maxDistance (ws[i := rest])
                 (scan_node queryHash maxDistance nd results))"
  by pat_completeness auto
termination
proof (relation "measure (\<lambda>(sch, q, d, ws, res). length (concat ws))", goal_cases)
  case 1
  show ?case by simp
next
  case (2 sch queryHash maxDistance ws results i nd rest)
  have "i \<in> set (runnable ws)"
    using 2(1) unfolding 2(2) by simp
  then have "i < length ws" by (simp add: runnable_mem)
  then show ?case using 2(3) by (simp add: length_concat_update)
qed

declare run_workers.simps [simp del]

text \<open>
  \<open>search\<close>: clear the shared vector, create one thread per core on
  \<open>&GBLnodeLists[i]\<close> (a failing \<open>pthread_create\<close> ends the process with \<open>exit(2)\<close>), and
  join them all. \<open>maxDistance\<close> is an \<open>unsigned char\<close>, widened to the \<open>int\<close> of
  \<open>ThreadParam\<close>.
\<close>

definition search :: "env \<Rightarrow> 64 word \<Rightarrow> 8 word \<Rightarrow> state \<Rightarrow> fault + state" where
  "search e hash maxDistance w =
     (let n = unat (GBLnumCores w)
      in if length (GBLnodeLists w) < n then Inl OutOfBounds
         else if list_ex (\<lambda>i. pthread_create_rc e i \<noteq> 0) [0..<n] then Inl (Exit 2)
         else Inr (w\<lparr>GBLsearchResults :=
                 run_workers (sched e) hash (uint maxDistance) (take n (GBLnodeLists w)) []\<rparr>))"

section \<open>add\<close>

text \<open>
  The loop of \<open>add\<close>: \<^verbatim>\<open>for (unsigned i = 0; i < GBLnumCores - 1; i++)\<close>. The bound
  is computed by the caller below; \<open>i\<close> stays under it, so \<open>i + 1\<close> never wraps. The sizes
  are read from the lists as they are at that iteration.
\<close>

function add_loop ::
  "nat \<Rightarrow> nat \<Rightarrow> Node \<Rightarrow> Node list list \<Rightarrow> bool \<Rightarrow> fault + (Node list list \<times> bool)"
where
  "add_loop i bound nd shards added =
     (if i < bound then
        (if i + 1 < length shards then
           (if length (shards ! (i + 1)) < length (shards ! i)
            then add_loop (i + 1) bound nd (shards[i + 1 := nd # shards ! (i + 1)]) True
            else add_loop (i + 1) bound nd shards added)
         else Inl OutOfBounds)
      else Inr (shards, added))"
  by pat_completeness auto
termination
  by (relation "measure (\<lambda>(i, bound, nd, shards, added). bound - i)") auto

declare add_loop.simps [simp del]

text \<open>
  \<^verbatim>\<open>void add(uint64_t hash, uint64_t dbId)\<close>. The parameter names are those of the source
  (\<open>dbId'\<close> for the second, the plain name being the field's);
  \<open>emplace_front(hash, dbId)\<close> calls \<open>Node(hash, dbId)\<close>, so the parameter \<open>hash\<close> lands
  in the field \<open>dbId\<close> and the parameter \<open>dbId\<close> in the field \<open>pHash\<close>. The bound
  \<open>GBLnumCores - 1\<close> is unsigned 32-bit arithmetic.
\<close>

definition add :: "64 word \<Rightarrow> 64 word \<Rightarrow> state \<Rightarrow> fault + state" where
  "add hash dbId' w =
     (let nd = \<lparr>Node.dbId = hash, pHash = dbId'\<rparr>
      in case add_loop 0 (unat (GBLnumCores w - 1)) nd (GBLnodeLists w) False of
           Inl f \<Rightarrow> Inl f
         | Inr (shards, added) \<Rightarrow>
             if added then Inr (w\<lparr>GBLnodeLists := shards\<rparr>)
             else (case shards of
                     [] \<Rightarrow> Inl OutOfBounds
                   | first # others \<Rightarrow> Inr (w\<lparr>GBLnodeLists := (nd # first) # others\<rparr>)))"

section \<open>The insertion policy in the words of the specification\<close>

text \<open>
  "Scan shard pairs (i, i+1) for i from 0 to N-2; for every pair where shard i+1 is
  currently smaller than shard i, insert the new Entry into shard i+1", without stopping
  at the first qualifying pair.
\<close>

definition policy_pair :: "Node \<Rightarrow> nat \<Rightarrow> Node list list \<times> bool \<Rightarrow> Node list list \<times> bool" where
  "policy_pair nd i = (\<lambda>(shards, qualified).
     if length (shards ! (i + 1)) < length (shards ! i)
     then (shards[i + 1 := nd # shards ! (i + 1)], True)
     else (shards, qualified))"

text \<open>"If no pair qualifies (or N = 1), insert into shard 0."\<close>

definition policy :: "Node \<Rightarrow> Node list list \<Rightarrow> Node list list" where
  "policy nd shards =
     (let (shards', qualified) = fold (policy_pair nd) [0..<length shards - 1] (shards, False)
      in if qualified then shards' else shards'[0 := nd # shards' ! 0])"

section \<open>sscanf and sprintf, as processCommand uses them\<close>

text \<open>
  The C library is not part of the program; the two calls of \<open>sscanf\<close> are modelled for
  the directives their format strings contain, as ISO C 7.21.6.2 describes them and, where
  the GNU C library differs or the standard leaves the behaviour open, as the GNU C
  library does it (the program is written for Linux). White space is the \<open>isspace\<close> of
  the C locale.
\<close>

definition isspace :: "char \<Rightarrow> bool" where
  "isspace c =
     (c = CHR '' '' \<or> c = CHR 0x09 \<or> c = CHR 0x0A \<or> c = CHR 0x0B \<or> c = CHR 0x0C \<or> c = CHR 0x0D)"

text \<open>The value of a character as a digit of the base (10 or 16), if it is one.\<close>

definition digit_of :: "nat \<Rightarrow> char \<Rightarrow> nat option" where
  "digit_of base c =
     (let n = (of_char c :: nat);
          v = (if 48 \<le> n \<and> n \<le> 57 then Some (n - 48)
               else if 97 \<le> n \<and> n \<le> 102 then Some (n - 87)
               else if 65 \<le> n \<and> n \<le> 70 then Some (n - 55)
               else None)
      in case v of None \<Rightarrow> None | Some d \<Rightarrow> if d < base then Some d else None)"

definition is_digit :: "nat \<Rightarrow> char \<Rightarrow> bool" where
  "is_digit base c = (digit_of base c \<noteq> None)"

definition digits_value :: "nat \<Rightarrow> string \<Rightarrow> nat" where
  "digits_value base ds =
     foldl (\<lambda>acc c. case digit_of base c of None \<Rightarrow> acc | Some d \<Rightarrow> acc * base + d) 0 ds"

text \<open>The outcome of one directive: what it assigned and the input left, or a failure.\<close>

datatype 'a scanned = Scanned 'a string | MatchingFailure | InputFailure

text \<open>Ordinary characters of the format must be the next characters of the input.\<close>

fun scan_literal :: "string \<Rightarrow> string \<Rightarrow> unit scanned" where
  "scan_literal [] s = Scanned () s"
| "scan_literal (c # cs) [] = InputFailure"
| "scan_literal (c # cs) (x # xs) = (if x = c then scan_literal cs xs else MatchingFailure)"

text \<open>
  The value \<open>strtoul\<close> gives a digit sequence: negated (modulo \<open>2^64\<close>) after a minus
  sign, and \<open>ULONG_MAX\<close> when the digits do not fit (ISO C leaves that case of \<open>sscanf\<close>
  undefined; glibc and musl both store \<open>ULONG_MAX\<close>).
\<close>

definition strtoul_value :: "bool \<Rightarrow> nat \<Rightarrow> 64 word" where
  "strtoul_value negative v =
     (if 2 ^ 64 \<le> v then - 1 else if negative then - word_of_nat v else word_of_nat v)"

text \<open>
  After a leading \<open>0\<close> of a hexadecimal number, an \<open>x\<close> or \<open>X\<close> is read as well and
  the digits go on behind it.
\<close>

fun after_zero :: "nat \<Rightarrow> string \<Rightarrow> string" where
  "after_zero base (x # rest) =
     (if base = 16 \<and> (x = CHR ''x'' \<or> x = CHR ''X'') then rest else x # rest)"
| "after_zero base [] = []"

text \<open>
  The digits of a number, after its sign. A number needs at least one digit, or the
  directive fails to match. A leading \<open>0\<close> is a digit already: \<open>0x\<close> with no hexadecimal
  digit behind it is read as the number 0, with the \<open>x\<close> consumed (the GNU C library;
  ISO C makes it a matching failure).
\<close>

definition scan_digits :: "bool \<Rightarrow> nat \<Rightarrow> string \<Rightarrow> (64 word) scanned" where
  "scan_digits negative base s =
     (case s of
        [] \<Rightarrow> MatchingFailure
      | z # r \<Rightarrow>
          if z = CHR ''0''
          then (let r' = after_zero base r
                in Scanned
                     (strtoul_value negative (digits_value base (takeWhile (is_digit base) r')))
                     (dropWhile (is_digit base) r'))
          else (let ds = takeWhile (is_digit base) (z # r)
                in if ds = [] then MatchingFailure
                   else Scanned (strtoul_value negative (digits_value base ds))
                          (dropWhile (is_digit base) (z # r))))"

text \<open>
  \<open>%lx\<close> and \<open>%lu\<close> (and \<open>%hhu\<close> before the value is narrowed): skip white space, then
  an optional sign and the digits. Input that ends before any character of the number is
  an input failure.
\<close>

definition scan_unsigned :: "nat \<Rightarrow> string \<Rightarrow> (64 word) scanned" where
  "scan_unsigned base s =
     (case dropWhile isspace s of
        [] \<Rightarrow> InputFailure
      | c # cs \<Rightarrow>
          if c = CHR ''-'' then scan_digits True base cs
          else if c = CHR ''+'' then scan_digits False base cs
          else scan_digits False base (c # cs))"

text \<open>
  What \<open>sscanf\<close> returns for a format \<open>"keyword %A %B\n"\<close>: \<open>EOF\<close>, or the number of
  items assigned, with the items. The final white-space directive cannot fail and
  assigns nothing.
\<close>

datatype sscanf_result = EOF | Assigned0 | Assigned1 "64 word" | Assigned2 "64 word" "64 word"

definition sscanf2 :: "string \<Rightarrow> nat \<Rightarrow> nat \<Rightarrow> string \<Rightarrow> sscanf_result" where
  "sscanf2 keyword base1 base2 command =
     (case scan_literal keyword command of
        InputFailure \<Rightarrow> EOF
      | MatchingFailure \<Rightarrow> Assigned0
      | Scanned u s1 \<Rightarrow>
          (case scan_unsigned base1 (dropWhile isspace s1) of
             InputFailure \<Rightarrow> EOF
           | MatchingFailure \<Rightarrow> Assigned0
           | Scanned a s2 \<Rightarrow>
               (case scan_unsigned base2 (dropWhile isspace s2) of
                  InputFailure \<Rightarrow> Assigned1 a
                | MatchingFailure \<Rightarrow> Assigned1 a
                | Scanned b s3 \<Rightarrow> Assigned2 a b)))"

text \<open>The return code of \<open>sscanf\<close>; \<open>processCommand\<close> tests \<open>rc == 2\<close>.\<close>

fun rc_of :: "sscanf_result \<Rightarrow> int" where
  "rc_of EOF = - 1"
| "rc_of Assigned0 = 0"
| "rc_of (Assigned1 a) = 1"
| "rc_of (Assigned2 a b) = 2"

text \<open>\<open>%lu\<close> and \<open>%u\<close> of \<open>sprintf\<close>: decimal digits, no padding.\<close>

definition digit_char :: "nat \<Rightarrow> char" where
  "digit_char d = ''0123456789'' ! d"

function show_dec :: "nat \<Rightarrow> string" where
  "show_dec n =
     (if n < 10 then [digit_char n] else show_dec (n div 10) @ [digit_char (n mod 10)])"
  by pat_completeness auto
termination
  by (relation "measure (\<lambda>n. n)") auto

declare show_dec.simps [simp del]

text \<open>
  \<^verbatim>\<open>sprintf(response, "%lu %u\n", dbId, distance)\<close>: the \<open>int\<close> distance is printed as
  an \<open>unsigned\<close>.
\<close>

definition response_line :: "Match \<Rightarrow> string" where
  "response_line m =
     show_dec (unat (Match.dbId m)) @ '' '' @ show_dec (nat (distance m mod 2 ^ 32)) @ [CHR 0x0A]"

section \<open>processCommand\<close>

text \<open>
  The loop that sends the results: one \<open>send\<close> per Match, in the order of the vector;
  the loop stops at the first \<open>send\<close> that does not take the whole line. The call is
  \<^verbatim>\<open>send(acceptedSocket, response, responseLen, MSG_NOSIGNAL)\<close>: the bytes the call
  takes are put on the descriptor \<open>acceptedSocket\<close>.
\<close>

fun send_results :: "env \<Rightarrow> Match list \<Rightarrow> state \<Rightarrow> state" where
  "send_results e [] w = w"
| "send_results e (m # ms) w =
     (let response = response_line m;
          responseLen = int (length response);
          fd = acceptedSocket e;
          numBytesSent = send_rc e fd (sock_out w fd) response;
          w' = w\<lparr>sock_out := (sock_out w)(fd := sock_out w fd @ take (nat numBytesSent) response)\<rparr>
      in if numBytesSent \<noteq> responseLen then w'\<lparr>diags := diags w' @ [CouldntSend]\<rparr>
         else send_results e ms w')"

text \<open>
  \<open>processCommand(int socket, const char* command)\<close>: the match pattern first, the add
  pattern otherwise. The parameter \<open>socket\<close>, the connection the command came on, is not
  used in the body. The call is \<open>add(dbId, hash)\<close>: the id goes to the parameter that
  \<open>add\<close> names \<open>hash\<close>. \<open>%hhu\<close> stores the low 8 bits of the number read.
\<close>

definition processCommand :: "env \<Rightarrow> int \<Rightarrow> state \<Rightarrow> string \<Rightarrow> fault + state" where
  "processCommand e socket w command =
     (case sscanf2 ''match'' 16 10 command of
        Assigned2 hash number \<Rightarrow>
          (let maxDistance = (ucast number :: 8 word)
           in case search e hash maxDistance (w\<lparr>diags := diags w @ [WillSearch hash maxDistance]\<rparr>) of
                Inl f \<Rightarrow> Inl f
              | Inr w' \<Rightarrow> Inr (send_results e (GBLsearchResults w') w'))
      | other \<Rightarrow>
          (case sscanf2 ''add'' 10 16 command of
             Assigned2 dbId' hash \<Rightarrow> add dbId' hash (w\<lparr>diags := diags w @ [WillAdd dbId' hash]\<rparr>)
           | other' \<Rightarrow> Inr (w\<lparr>diags := diags w @ [InvalidCommand]\<rparr>)))"

section \<open>readCommands\<close>

definition bufferSize :: nat where
  "bufferSize = 1024"

text \<open>
  What the successive calls of \<open>recv\<close> meet: bytes that have arrived together, or an
  error. A call takes at most the length it asks for and leaves the rest for the next
  call; when nothing is left the peer has closed and \<open>recv\<close> returns 0.
\<close>

datatype recv_event = Bytes string | RecvError

datatype recv_result = Received string "recv_event list" | Closed | Failed

fun recv :: "recv_event list \<Rightarrow> nat \<Rightarrow> recv_result" where
  "recv [] len = Closed"
| "recv (RecvError # rx) len = Failed"
| "recv (Bytes bs # rx) len =
     (if bs = [] \<or> len = 0 then Closed
      else if length bs \<le> len then Received bs rx
      else Received (take len bs) (Bytes (drop len bs) # rx))"

text \<open>\<open>memchr(lineStart, '\n', n)\<close>: the offset of the first newline, if there is one.\<close>

definition memchr_nl :: "string \<Rightarrow> nat option" where
  "memchr_nl buf =
     (if CHR 0x0A \<in> set buf then Some (length (takeWhile (\<lambda>c. c \<noteq> CHR 0x0A) buf)) else None)"

text \<open>
  The newline is overwritten with \<open>'\0'\<close> and \<open>lineStart\<close> is passed as a C string: the
  command ends at the first NUL.
\<close>

definition c_str :: "string \<Rightarrow> string" where
  "c_str bytes = takeWhile (\<lambda>c. c \<noteq> CHR 0x00) bytes"

lemma memchr_nl_less: "memchr_nl buf = Some k \<Longrightarrow> k < length buf"
proof -
  assume "memchr_nl buf = Some k"
  then have "CHR 0x0A \<in> set buf" and k: "k = length (takeWhile (\<lambda>c. c \<noteq> CHR 0x0A) buf)"
    by (auto simp: memchr_nl_def split: if_splits)
  then have "takeWhile (\<lambda>c. c \<noteq> CHR 0x0A) buf \<noteq> buf"
    by (metis (mono_tags, lifting) set_takeWhileD)
  then show ?thesis
    unfolding k by (metis length_takeWhile_le le_neq_implies_less takeWhile_eq_take take_all_iff order_refl)
qed

text \<open>
  The inner loop: every complete line from \<open>lineStart\<close> on goes to the handler; what is
  left after the last newline stays in the buffer. \<open>buf\<close> is the part of the buffer from
  \<open>lineStart\<close> to \<open>numBytesFilled\<close>. The handler is a parameter: it is
  \<open>processCommand\<close> in the program.
\<close>

function process_lines ::
  "('st \<Rightarrow> string \<Rightarrow> 'f + 'st) \<Rightarrow> string \<Rightarrow> 'st \<Rightarrow> 'f + ('st \<times> string)"
where
  "process_lines proc buf st =
     (case memchr_nl buf of
        None \<Rightarrow> Inr (st, buf)
      | Some k \<Rightarrow>
          (case proc st (c_str (take k buf)) of
             Inl f \<Rightarrow> Inl f
           | Inr st' \<Rightarrow> process_lines proc (drop (k + 1) buf) st'))"
  by pat_completeness auto
termination
  by (relation "measure (\<lambda>(proc, buf, st). length buf)") (auto dest: memchr_nl_less)

declare process_lines.simps [simp del]

text \<open>How the loop of \<open>readCommands\<close> ended.\<close>

datatype ending = PeerClosed | RecvFailed | TooLong

fun rx_size :: "recv_event list \<Rightarrow> nat" where
  "rx_size [] = 0"
| "rx_size (Bytes bs # rx) = Suc (length bs + rx_size rx)"
| "rx_size (RecvError # rx) = Suc (rx_size rx)"

lemma recv_smaller: "recv rx len = Received bs rx' \<Longrightarrow> rx_size rx' < rx_size rx"
  by (induction rx len rule: recv.induct) (auto split: if_splits)

text \<open>
  The outer loop: \<open>buf\<close> is the buffer up to \<open>numBytesFilled\<close>; \<open>recv\<close> is asked for
  \<open>bufferSize - numBytesFilled\<close> bytes.
\<close>

function readCommands_loop ::
  "('st \<Rightarrow> string \<Rightarrow> 'f + 'st) \<Rightarrow> string \<Rightarrow> recv_event list \<Rightarrow> 'st \<Rightarrow> 'f + ('st \<times> ending)"
where
  "readCommands_loop proc buf rx st =
     (case recv rx (bufferSize - length buf) of
        Closed \<Rightarrow> Inr (st, PeerClosed)
      | Failed \<Rightarrow> Inr (st, RecvFailed)
      | Received bs rx' \<Rightarrow>
          (case process_lines proc (buf @ bs) st of
             Inl f \<Rightarrow> Inl f
           | Inr (st', rest) \<Rightarrow>
               if length rest = bufferSize then Inr (st', TooLong)
               else readCommands_loop proc rest rx' st'))"
  by pat_completeness auto
termination
  by (relation "measure (\<lambda>(proc, buf, rx, st). rx_size rx)") (auto dest: recv_smaller)

declare readCommands_loop.simps [simp del]

text \<open>
  \<open>readCommands(int socket)\<close> with the diagnostics of its two error exits; \<open>rx\<close> is what
  arrives on \<open>socket\<close>, and \<open>socket\<close> is passed on to \<open>processCommand\<close>. When it
  returns, \<open>main\<close> closes the accepted socket, whatever the ending.
\<close>

definition readCommands ::
  "env \<Rightarrow> int \<Rightarrow> recv_event list \<Rightarrow> state \<Rightarrow> fault + (state \<times> ending)"
where
  "readCommands e socket rx w =
     (case readCommands_loop (processCommand e socket) [] rx w of
        Inl f \<Rightarrow> Inl f
      | Inr (w', how) \<Rightarrow>
          Inr (case how of
                 PeerClosed \<Rightarrow> w'
               | RecvFailed \<Rightarrow> w'\<lparr>diags := diags w' @ [RecvPerror]\<rparr>
               | TooLong \<Rightarrow> w'\<lparr>diags := diags w' @ [CommandTooLong]\<rparr>, how))"

section \<open>Definitions used to state the properties\<close>

text \<open>The Match a worker records for a node: the node's id and its distance to the query.\<close>

definition match_of :: "64 word \<Rightarrow> Node \<Rightarrow> Match" where
  "match_of q nd = \<lparr>Match.dbId = Node.dbId nd, distance = hamming q (pHash nd)\<rparr>"

text \<open>
  "Exactly \<open>{e in E : dist(q, e.hash) <= d}\<close>": one Match for each stored node, of any
  shard, whose distance to the query is at most the threshold, as a multiset (the store
  may hold equal nodes, and the order of the vector is not fixed).
\<close>

definition expected_matches :: "64 word \<Rightarrow> int \<Rightarrow> Node list list \<Rightarrow> Match multiset" where
  "expected_matches q d shards =
     image_mset (match_of q) (filter_mset (\<lambda>nd. hamming q (pHash nd) \<le> d) (mset (concat shards)))"

text \<open>What holds after the pairs \<open>(0,1) .. (k-1,k)\<close> have been examined.\<close>

definition pass_inv :: "Node \<Rightarrow> Node list list \<Rightarrow> nat \<Rightarrow> Node list list \<times> bool \<Rightarrow> bool" where
  "pass_inv nd old k = (\<lambda>(sh, q).
     length sh = length old
     \<and> sh ! 0 = old ! 0
     \<and> (\<forall>j. k < j \<and> j < length old \<longrightarrow> sh ! j = old ! j)
     \<and> (\<forall>i<k. sh ! (i + 1) =
            (if length (old ! (i + 1)) < length (sh ! i) then nd # old ! (i + 1) else old ! (i + 1)))
     \<and> (q = (\<exists>i<k. length (old ! (i + 1)) < length (sh ! i)))
     \<and> length (concat sh) \<le> length (concat old) + k
     \<and> (if q then length (concat old) < length (concat sh) else sh = old))"

text \<open>
  The size of shard \<open>i\<close> that the comparison of the pair \<open>(i, i + 1)\<close> reads: shard 0 as
  it was before the call (it is written only after the loop), any other shard as the
  call leaves it, that is with the insertion of the pair \<open>(i - 1, i)\<close> already made.
\<close>

definition live_size :: "Node list list \<Rightarrow> Node list list \<Rightarrow> nat \<Rightarrow> nat" where
  "live_size old new i = length (if i = 0 then old ! 0 else new ! i)"

text \<open>Sample stores and a sample environment in which nothing fails.\<close>

definition unbalanced3 :: state where
  "unbalanced3 =
     \<lparr>GBLnumCores = 3, GBLnodeLists = [[\<lparr>Node.dbId = 100, pHash = 15\<rparr>], [], []],
      GBLsearchResults = [], sock_out = (\<lambda>fd. []), diags = []\<rparr>"

definition quiet_env :: env where
  "quiet_env = \<lparr>sched = (\<lambda>ws. 0), pthread_create_rc = (\<lambda>i. 0),
                send_rc = (\<lambda>fd sent buf. int (length buf)), acceptedSocket = 0\<rparr>"

definition two_shards :: state where
  "two_shards =
     \<lparr>GBLnumCores = 2,
      GBLnodeLists = [[\<lparr>Node.dbId = 1, pHash = 15\<rparr>, \<lparr>Node.dbId = 2, pHash = 240\<rparr>],
                      [\<lparr>Node.dbId = 3, pHash = 14\<rparr>]],
      GBLsearchResults = [\<lparr>Match.dbId = 9, distance = 5\<rparr>], sock_out = (\<lambda>fd. []), diags = []\<rparr>"

text \<open>
  The byte stream a list of arrivals carries, and the arrivals in which every \<open>recv\<close>
  gets at least one byte and none fails.
\<close>

fun payload :: "recv_event \<Rightarrow> string" where
  "payload (Bytes bs) = bs"
| "payload RecvError = []"

fun delivers :: "recv_event \<Rightarrow> bool" where
  "delivers (Bytes bs) = (bs \<noteq> [])"
| "delivers RecvError = False"

definition stream_of :: "recv_event list \<Rightarrow> string" where
  "stream_of rx = concat (map payload rx)"

definition well_chunked :: "recv_event list \<Rightarrow> bool" where
  "well_chunked rx = list_all delivers rx"

text \<open>
  The reading of a stream as one block, with no buffer and no arrivals: a line whose
  newline is among the first \<open>bufferSize\<close> bytes left goes to the handler; a stream
  that has no newline there ends the loop, as too long when \<open>bufferSize\<close> bytes are
  left and by the peer closing otherwise.
\<close>

function frame ::
  "('st \<Rightarrow> string \<Rightarrow> 'f + 'st) \<Rightarrow> string \<Rightarrow> 'st \<Rightarrow> 'f + ('st \<times> ending)"
where
  "frame proc s st =
     (case memchr_nl s of
        None \<Rightarrow> Inr (st, if bufferSize \<le> length s then TooLong else PeerClosed)
      | Some k \<Rightarrow>
          if k < bufferSize
          then (case proc st (c_str (take k s)) of
                  Inl f \<Rightarrow> Inl f
                | Inr st' \<Rightarrow> frame proc (drop (k + 1) s) st')
          else Inr (st, TooLong))"
  by pat_completeness auto
termination
  by (relation "measure (\<lambda>(proc, s, st). length s)") (auto dest: memchr_nl_less)

declare frame.simps [simp del]

text \<open>
  "Process each line exactly once, in arrival order": the handler applied to the lines
  in order, a fault of the handler ending the run.
\<close>

fun process_all :: "('st \<Rightarrow> string \<Rightarrow> 'f + 'st) \<Rightarrow> string list \<Rightarrow> 'st \<Rightarrow> 'f + 'st" where
  "process_all proc [] st = Inr st"
| "process_all proc (l # ls) st =
     (case proc st l of Inl f \<Rightarrow> Inl f | Inr st' \<Rightarrow> process_all proc ls st')"

text \<open>Lines as they travel: each followed by a newline.\<close>

definition wire :: "string list \<Rightarrow> string" where
  "wire ls = concat (map (\<lambda>l. l @ [CHR 0x0A]) ls)"

text \<open>
  Lines within the budget: no newline inside, and at most \<open>bufferSize\<close> bytes with
  the newline.
\<close>

definition short_lines :: "string list \<Rightarrow> bool" where
  "short_lines ls = list_all (\<lambda>l. CHR 0x0A \<notin> set l \<and> length l < bufferSize) ls"

text \<open>The result of a run of the handler, with the way the loop ended.\<close>

definition then_ending :: "'f + 'st \<Rightarrow> ending \<Rightarrow> 'f + ('st \<times> ending)" where
  "then_ending r how = (case r of Inl f \<Rightarrow> Inl f | Inr st \<Rightarrow> Inr (st, how))"

text \<open>A handler that only records the commands it is given.\<close>

definition record_line :: "string list \<Rightarrow> string \<Rightarrow> unit + string list" where
  "record_line seen l = Inr (seen @ [l])"

text \<open>Text after a number that cannot be read as part of it: nothing, or a space first.\<close>

definition number_end :: "string \<Rightarrow> bool" where
  "number_end rest = (case rest of [] \<Rightarrow> True | c # cs \<Rightarrow> c = CHR '' '')"

text \<open>
  The two grammars of the specification, "whitespace-delimited, case-sensitive keyword":
  \<open>match <hash:64-bit hex> <maxDistance:8-bit unsigned decimal>\<close> and
  \<open>add <id:unsigned 64-bit decimal> <hash:64-bit hex>\<close>.
\<close>

fun split_ws :: "string \<Rightarrow> string \<Rightarrow> string list" where
  "split_ws cur [] = (if cur = [] then [] else [rev cur])"
| "split_ws cur (c # cs) =
     (if isspace c then (if cur = [] then split_ws [] cs else rev cur # split_ws [] cs)
      else split_ws (c # cur) cs)"

definition tokens :: "string \<Rightarrow> string list" where
  "tokens l = split_ws [] l"

definition is_number :: "nat \<Rightarrow> nat \<Rightarrow> string \<Rightarrow> bool" where
  "is_number base bound t =
     (t \<noteq> [] \<and> list_all (is_digit base) t \<and> digits_value base t < bound)"

definition match_grammar :: "string \<Rightarrow> bool" where
  "match_grammar l =
     (case tokens l of
        [k, h, d] \<Rightarrow> k = ''match'' \<and> is_number 16 (2 ^ 64) h \<and> is_number 10 (2 ^ 8) d
      | _ \<Rightarrow> False)"

definition add_grammar :: "string \<Rightarrow> bool" where
  "add_grammar l =
     (case tokens l of
        [k, i, h] \<Rightarrow> k = ''add'' \<and> is_number 10 (2 ^ 64) i \<and> is_number 16 (2 ^ 64) h
      | _ \<Rightarrow> False)"

text \<open>
  What a line has to begin with for a call of \<open>sscanf\<close> with the format
  \<open>"keyword %A %B\n"\<close> to assign both items, said without reference to the scanner: the
  keyword at the very start, white space or none, a number, white space or none, and a
  second number. A number is an optional sign and then digits of its base, at least one;
  a hexadecimal number may have its digits, or none, behind \<open>0x\<close> or \<open>0X\<close>. With no white
  space between the two numbers, the second must begin where the first cannot go on.
\<close>

definition blank :: "string \<Rightarrow> bool" where
  "blank ws = list_all isspace ws"

definition sign_text :: "string \<Rightarrow> bool" where
  "sign_text sg = (sg = [] \<or> sg = ''-'' \<or> sg = ''+'')"

definition digits_text :: "nat \<Rightarrow> string \<Rightarrow> bool" where
  "digits_text base body =
     ((body \<noteq> [] \<and> list_all (is_digit base) body)
      \<or> (base = 16 \<and> (\<exists>x ds. body = CHR ''0'' # x # ds \<and> (x = CHR ''x'' \<or> x = CHR ''X'')
                            \<and> list_all (is_digit 16) ds)))"

definition number_text :: "nat \<Rightarrow> string \<Rightarrow> bool" where
  "number_text base n = (\<exists>sg body. n = sg @ body \<and> sign_text sg \<and> digits_text base body)"

definition starts_command :: "string \<Rightarrow> nat \<Rightarrow> nat \<Rightarrow> string \<Rightarrow> bool" where
  "starts_command keyword base1 base2 l =
     (\<exists>ws1 n1 ws2 n2 rest.
        l = keyword @ ws1 @ n1 @ ws2 @ n2 @ rest
        \<and> blank ws1 \<and> number_text base1 n1
        \<and> blank ws2 \<and> number_text base2 n2
        \<and> (ws2 = [] \<longrightarrow> \<not> is_digit base1 (hd n2)))"

text \<open>Where the reading of a number stops: at the end, or before a character that is
  neither a digit of the base nor an x.\<close>

definition stops :: "nat \<Rightarrow> string \<Rightarrow> bool" where
  "stops base rest =
     (case rest of [] \<Rightarrow> True
      | c # cs \<Rightarrow> \<not> is_digit base c \<and> c \<noteq> CHR ''x'' \<and> c \<noteq> CHR ''X'')"

text \<open>
  The decimal text of a number as \<open>%lu\<close> and \<open>%u\<close> print it: its digits, without a
  leading zero unless the number is 0.
\<close>

definition decimal_text :: "nat \<Rightarrow> string \<Rightarrow> bool" where
  "decimal_text n t = (t \<noteq> [] \<and> list_all (is_digit 10) t \<and> digits_value 10 t = n
                       \<and> (t = ''0'' \<or> hd t \<noteq> CHR ''0''))"

section \<open>Properties\<close>

lemma popcountl_card: "popcountl x = int (card {i. i < 64 \<and> bit x i})"
  unfolding popcountl_def by (simp add: length_filter_conv_card cong: conj_cong)

text \<open>
  C6. The distance a search worker computes for two 64-bit values is the number of bit
  positions (0 to 63) at which they differ; it is symmetric, and the distance of a value
  to itself is 0.
\<close>

theorem hamming_differing_bits:
  "hamming a b = int (card {i. i < 64 \<and> bit a i \<noteq> bit b i})
   \<and> hamming a b = hamming b a
   \<and> hamming a a = 0"
proof -
  have "hamming a b = int (card {i. i < 64 \<and> bit a i \<noteq> bit b i})"
    by (simp add: hamming_def popcountl_card bit_xor_iff)
  moreover have "hamming a b = hamming b a"
    by (simp add: hamming_def xor.commute)
  moreover have "hamming a a = 0"
    by (simp add: hamming_def popcountl_def)
  ultimately show ?thesis by blast
qed

lemma mset_concat_update:
  "i < length ws \<Longrightarrow> ws ! i = x # rest \<Longrightarrow>
   mset (concat ws) = add_mset x (mset (concat (ws[i := rest])))"
proof (induction ws arbitrary: i)
  case Nil
  then show ?case by simp
next
  case (Cons a ws)
  then show ?case by (cases i) auto
qed

lemma mset_scan_node:
  "mset (scan_node q d nd res) =
   mset res + (if hamming q (pHash nd) \<le> d then {#match_of q nd#} else {#})"
  by (simp add: scan_node_def match_of_def Let_def)

lemma run_workers_mset:
  "mset (run_workers sch q d ws res) = mset res + expected_matches q d ws"
proof (induction sch q d ws res rule: run_workers.induct)
  case (1 sch q d ws res)
  show ?case
  proof (cases "runnable ws = []")
    case True
    then have "\<forall>i<length ws. ws ! i = []"
      by (auto simp: runnable_def filter_empty_conv)
    then have c: "concat ws = []"
      by (auto simp: in_set_conv_nth)
    have r: "run_workers sch q d ws res = res"
      using True by (subst run_workers.simps) simp
    show ?thesis
      unfolding expected_matches_def c r by simp
  next
    case False
    define i where "i = runnable ws ! (sch ws mod length (runnable ws))"
    have "i \<in> set (runnable ws)"
      unfolding i_def using False by simp
    then have il: "i < length ws" and ne: "ws ! i \<noteq> []"
      by (simp_all add: runnable_mem)
    then obtain nd rest where wsi: "ws ! i = nd # rest"
      by (cases "ws ! i") auto
    have step: "run_workers sch q d ws res =
                run_workers sch q d (ws[i := rest]) (scan_node q d nd res)"
      using False wsi by (subst run_workers.simps) (simp add: i_def Let_def)
    have IH: "mset (run_workers sch q d (ws[i := rest]) (scan_node q d nd res)) =
              mset (scan_node q d nd res) + expected_matches q d (ws[i := rest])"
      using "1.IH" [OF False i_def wsi] .
    have "expected_matches q d ws =
          (if hamming q (pHash nd) \<le> d then {#match_of q nd#} else {#})
          + expected_matches q d (ws[i := rest])"
      unfolding expected_matches_def mset_concat_update [OF il wsi] by simp
    then show ?thesis
      unfolding step IH mset_scan_node by simp
  qed
qed

lemma scan_node_bound:
  "\<forall>m\<in>set res. distance m \<le> d \<Longrightarrow> \<forall>m\<in>set (scan_node q d nd res). distance m \<le> d"
  by (simp add: scan_node_def Let_def)

lemma length_policy_pair:
  "length (fst (policy_pair nd i s)) = length (fst s)"
  by (cases s) (simp add: policy_pair_def)

lemma add_loop_fold:
  "i \<le> bound \<Longrightarrow> bound < length shards \<Longrightarrow>
   add_loop i bound nd shards added = Inr (fold (policy_pair nd) [i..<bound] (shards, added))"
proof (induction i bound nd shards added rule: add_loop.induct)
  case (1 i bound nd shards added)
  show ?case
  proof (cases "i < bound")
    case False
    with "1.prems" show ?thesis
      by (subst add_loop.simps) simp
  next
    case True
    then have in_range: "i + 1 < length shards"
      using "1.prems" by simp
    have upt: "[i..<bound] = i # [i + 1..<bound]"
      using True by (simp add: upt_conv_Cons)
    show ?thesis
    proof (cases "length (shards ! (i + 1)) < length (shards ! i)")
      case smaller: True
      have "add_loop (i + 1) bound nd (shards[i + 1 := nd # shards ! (i + 1)]) True =
            Inr (fold (policy_pair nd) [i + 1..<bound]
                   (shards[i + 1 := nd # shards ! (i + 1)], True))"
        using "1.IH"(1) [OF True in_range smaller] True "1.prems" by simp
      then show ?thesis
        using True in_range smaller
        by (subst add_loop.simps) (simp add: upt policy_pair_def)
    next
      case not_smaller: False
      have "add_loop (i + 1) bound nd shards added =
            Inr (fold (policy_pair nd) [i + 1..<bound] (shards, added))"
        using "1.IH"(2) [OF True in_range not_smaller] True "1.prems" by simp
      then show ?thesis
        using True in_range not_smaller
        by (subst add_loop.simps) (simp add: upt policy_pair_def)
    qed
  qed
qed

lemma length_fold_policy:
  "length (fst (fold (policy_pair nd) is s)) = length (fst s)"
  by (induction "is" arbitrary: s) (simp_all add: length_policy_pair)

lemma store_ok_bound:
  "store_ok w \<Longrightarrow> unat (GBLnumCores w - 1) = length (GBLnodeLists w) - 1
     \<and> 0 < length (GBLnodeLists w)"
  by (simp add: store_ok_def unat_minus_one unat_gt_0)

lemma add_policy:
  assumes "store_ok w"
  shows "add h d w = Inr (w\<lparr>GBLnodeLists := policy \<lparr>Node.dbId = h, pHash = d\<rparr> (GBLnodeLists w)\<rparr>)"
proof -
  let ?nd = "\<lparr>Node.dbId = h, pHash = d\<rparr>"
  let ?L = "GBLnodeLists w"
  obtain sh q where f: "fold (policy_pair ?nd) [0..<length ?L - 1] (?L, False) = (sh, q)"
    by (cases "fold (policy_pair ?nd) [0..<length ?L - 1] (?L, False)")
  have b: "unat (GBLnumCores w - 1) = length ?L - 1" and pos: "0 < length ?L"
    using store_ok_bound [OF assms] by simp_all
  have loop: "add_loop 0 (unat (GBLnumCores w - 1)) ?nd ?L False = Inr (sh, q)"
    unfolding b using add_loop_fold [of 0 "length ?L - 1" ?L ?nd False] pos f by simp
  have "length sh = length ?L"
    using length_fold_policy [of ?nd "[0..<length ?L - 1]" "(?L, False)"] f by simp
  then obtain first others where sh: "sh = first # others"
    using pos by (cases sh) auto
  have p: "policy ?nd ?L = (if q then sh else sh[0 := ?nd # sh ! 0])"
    unfolding policy_def f by simp
  show ?thesis
    unfolding add_def Let_def loop p by (simp add: sh)
qed

lemma fold_upt_invariant:
  assumes "P 0 s" and "\<And>i t. i < n \<Longrightarrow> P i t \<Longrightarrow> P (Suc i) (f i t)"
  shows "P n (fold f [0..<n] s)"
proof -
  have "k \<le> n \<Longrightarrow> P k (fold f [0..<k] s)" for k
  proof (induction k)
    case 0
    show ?case using assms(1) by simp
  next
    case (Suc k)
    then show ?case using assms(2) [of k "fold f [0..<k] s"] by simp
  qed
  then show ?thesis by simp
qed

lemma length_concat_cons_update:
  "j < length sh \<Longrightarrow> length (concat (sh[j := x # sh ! j])) = Suc (length (concat sh))"
proof (induction sh arbitrary: j)
  case Nil
  then show ?case by simp
next
  case (Cons a sh)
  then show ?case by (cases j) auto
qed

lemma pass_invI:
  assumes "length sh = length old"
    and "sh ! 0 = old ! 0"
    and "\<And>j. k < j \<Longrightarrow> j < length old \<Longrightarrow> sh ! j = old ! j"
    and "\<And>i. i < k \<Longrightarrow> sh ! (i + 1) =
            (if length (old ! (i + 1)) < length (sh ! i) then nd # old ! (i + 1) else old ! (i + 1))"
    and "q = (\<exists>i<k. length (old ! (i + 1)) < length (sh ! i))"
    and "length (concat sh) \<le> length (concat old) + k"
    and "if q then length (concat old) < length (concat sh) else sh = old"
  shows "pass_inv nd old k (sh, q)"
  unfolding pass_inv_def using assms by blast

lemma pass_invD:
  assumes "pass_inv nd old k (sh, q)"
  shows "length sh = length old"
    and "sh ! 0 = old ! 0"
    and "\<And>j. k < j \<Longrightarrow> j < length old \<Longrightarrow> sh ! j = old ! j"
    and "\<And>i. i < k \<Longrightarrow> sh ! (i + 1) =
            (if length (old ! (i + 1)) < length (sh ! i) then nd # old ! (i + 1) else old ! (i + 1))"
    and "q = (\<exists>i<k. length (old ! (i + 1)) < length (sh ! i))"
    and "length (concat sh) \<le> length (concat old) + k"
    and "if q then length (concat old) < length (concat sh) else sh = old"
  using assms unfolding pass_inv_def by blast+

lemma pass_inv_step:
  assumes "k < length old - 1" and "pass_inv nd old k t"
  shows "pass_inv nd old (Suc k) (policy_pair nd k t)"
proof -
  obtain sh q where t: "t = (sh, q)" by (cases t)
  note inv = pass_invD [OF assms(2) [unfolded t]]
  have len: "length sh = length old" by (rule inv(1))
  have k1: "Suc k < length old" using assms(1) by simp
  have next_old: "sh ! Suc k = old ! Suc k" using inv(3) [of "Suc k"] k1 by simp
  have old_le: "length (concat old) \<le> length (concat sh)"
  proof (cases q)
    case True
    then show ?thesis using inv(7) by simp
  next
    case False
    then show ?thesis using inv(7) by simp
  qed
  show ?thesis
  proof (cases "length (sh ! Suc k) < length (sh ! k)")
    case True
    define sh' where "sh' = sh[Suc k := nd # sh ! Suc k]"
    have pp: "policy_pair nd k t = (sh', True)"
      using True by (simp add: t policy_pair_def sh'_def)
    have same: "sh' ! j = sh ! j" if "j \<noteq> Suc k" for j
      using that by (simp add: sh'_def)
    have at: "sh' ! Suc k = nd # old ! Suc k"
      using k1 len next_old by (simp add: sh'_def)
    have cmp: "length (old ! Suc k) < length (sh' ! k)"
      using True next_old same [of k] by simp
    show ?thesis
      unfolding pp
    proof (rule pass_invI)
      show "length sh' = length old" by (simp add: sh'_def len)
      show "sh' ! 0 = old ! 0" using same [of 0] inv(2) by simp
      show "sh' ! j = old ! j" if "Suc k < j" "j < length old" for j
        using same [of j] inv(3) [of j] that by simp
      show "sh' ! (i + 1) =
            (if length (old ! (i + 1)) < length (sh' ! i) then nd # old ! (i + 1) else old ! (i + 1))"
        if "i < Suc k" for i
      proof (cases "i = k")
        case True
        then show ?thesis using at cmp by simp
      next
        case False
        then have ik: "i < k" using that by simp
        then have "sh' ! (i + 1) = sh ! (i + 1)" and "sh' ! i = sh ! i"
          using same [of "i + 1"] same [of i] by simp_all
        then show ?thesis using inv(4) [OF ik] by simp
      qed
      show "True = (\<exists>i<Suc k. length (old ! (i + 1)) < length (sh' ! i))"
        using cmp by auto
      have "length (concat sh') = Suc (length (concat sh))"
        unfolding sh'_def using k1 len by (intro length_concat_cons_update) simp
      then show "length (concat sh') \<le> length (concat old) + Suc k"
        and "if True then length (concat old) < length (concat sh') else sh' = old"
        using inv(6) old_le by simp_all
    qed
  next
    case False
    have pp: "policy_pair nd k t = (sh, q)"
      using False by (simp add: t policy_pair_def)
    have ncmp: "\<not> length (old ! Suc k) < length (sh ! k)"
      using False next_old by simp
    show ?thesis
      unfolding pp
    proof (rule pass_invI)
      show "length sh = length old" by (rule len)
      show "sh ! 0 = old ! 0" by (rule inv(2))
      show "sh ! j = old ! j" if "Suc k < j" "j < length old" for j
        using inv(3) [of j] that by simp
      show "sh ! (i + 1) =
            (if length (old ! (i + 1)) < length (sh ! i) then nd # old ! (i + 1) else old ! (i + 1))"
        if "i < Suc k" for i
      proof (cases "i = k")
        case True
        then show ?thesis using ncmp next_old by simp
      next
        case False
        then have ik: "i < k" using that by simp
        show ?thesis by (rule inv(4) [OF ik])
      qed
      show "q = (\<exists>i<Suc k. length (old ! (i + 1)) < length (sh ! i))"
        unfolding inv(5) using ncmp by (auto simp: less_Suc_eq)
      show "length (concat sh) \<le> length (concat old) + Suc k"
        using inv(6) by simp
      show "if q then length (concat old) < length (concat sh) else sh = old"
        by (rule inv(7))
    qed
  qed
qed

lemma pass_inv_fold:
  "pass_inv nd old (length old - 1) (fold (policy_pair nd) [0..<length old - 1] (old, False))"
proof (rule fold_upt_invariant)
  show "pass_inv nd old 0 (old, False)"
    by (simp add: pass_inv_def)
next
  fix i t
  assume "i < length old - 1" and "pass_inv nd old i t"
  then show "pass_inv nd old (Suc i) (policy_pair nd i t)"
    by (rule pass_inv_step)
qed

lemma policy_characterised:
  fixes nd :: Node and old :: "Node list list"
  assumes pos: "0 < length old"
  defines "new \<equiv> policy nd old"
  shows "length new = length old"
    and "\<And>i. i + 1 < length old \<Longrightarrow> new ! (i + 1) =
          (if length (old ! (i + 1)) < live_size old new i then nd # old ! (i + 1) else old ! (i + 1))"
    and "new ! 0 =
          (if \<exists>i. i + 1 < length old \<and> length (old ! (i + 1)) < live_size old new i
           then old ! 0 else nd # old ! 0)"
    and "length (concat old) + 1 \<le> length (concat new)"
    and "length (concat new) \<le> length (concat old) + max 1 (length old - 1)"
proof -
  obtain sh q where f: "fold (policy_pair nd) [0..<length old - 1] (old, False) = (sh, q)"
    by (cases "fold (policy_pair nd) [0..<length old - 1] (old, False)")
  have new: "new = (if q then sh else sh[0 := nd # sh ! 0])"
    unfolding new_def policy_def f by simp
  note inv = pass_invD [OF pass_inv_fold [of nd old, unfolded f]]
  have len: "length sh = length old" by (rule inv(1))
  have tail: "new ! i = sh ! i" if "0 < i" for i
    using that by (simp add: new)
  have live: "live_size old new i = length (sh ! i)" for i
    using inv(2) tail [of i] by (cases "i = 0") (simp_all add: live_size_def)
  show "length new = length old"
    by (simp add: new len)
  show "new ! (i + 1) =
          (if length (old ! (i + 1)) < live_size old new i then nd # old ! (i + 1) else old ! (i + 1))"
    if "i + 1 < length old" for i
  proof -
    have "i < length old - 1" using that by simp
    then show ?thesis
      using inv(4) [of i] tail [of "i + 1"] by (simp add: live)
  qed
  have q_eq: "q = (\<exists>i. i + 1 < length old \<and> length (old ! (i + 1)) < live_size old new i)"
    unfolding inv(5) live by (auto simp: less_diff_conv)
  show "new ! 0 =
          (if \<exists>i. i + 1 < length old \<and> length (old ! (i + 1)) < live_size old new i
           then old ! 0 else nd # old ! 0)"
    unfolding q_eq [symmetric] using inv(2) pos len by (simp add: new)
  show "length (concat old) + 1 \<le> length (concat new)"
  proof (cases q)
    case True
    then show ?thesis using inv(7) by (simp add: new)
  next
    case False
    then have "sh = old" using inv(7) by simp
    then show ?thesis
      using False pos length_concat_cons_update [of 0 old nd]
      by (simp add: new)
  qed
  show "length (concat new) \<le> length (concat old) + max 1 (length old - 1)"
  proof (cases q)
    case True
    then show ?thesis using inv(6) by (simp add: new)
  next
    case False
    then have "sh = old" using inv(7) by simp
    then show ?thesis
      using False pos length_concat_cons_update [of 0 old nd]
      by (simp add: new)
  qed
qed

text \<open>
  C2. The insertion policy of \<open>add\<close> is the one the specification words: every pair
  \<open>(i, i + 1)\<close>, for \<open>i\<close> from 0 to \<open>N - 2\<close>, whose second shard is currently smaller
  than its first gets the new node in its second shard, the scan does not stop at the
  first such pair, and shard 0 gets the node when no pair qualifies. On a store as
  \<open>main\<close> sets it up, \<open>add\<close> returns the store that \<open>policy\<close> computes.
\<close>

theorem add_follows_policy:
  assumes "store_ok w"
  shows "add h d w = Inr (w\<lparr>GBLnodeLists := policy \<lparr>Node.dbId = h, pHash = d\<rparr> (GBLnodeLists w)\<rparr>)"
  using assms by (rule add_policy)

lemma store_ok_unbalanced3: "store_ok unbalanced3"
  by (simp add: store_ok_def unbalanced3_def)

lemma policy_unbalanced3:
  "policy nd [[a], [], []] = [[a], [nd], [nd]]"
  by (simp add: policy_def policy_pair_def upt_conv_Cons)

theorem add_follows_policy_witness:
  "add 200 240 unbalanced3 =
   Inr (unbalanced3\<lparr>GBLnodeLists :=
     [[\<lparr>Node.dbId = 100, pHash = 15\<rparr>], [\<lparr>Node.dbId = 200, pHash = 240\<rparr>],
      [\<lparr>Node.dbId = 200, pHash = 240\<rparr>]]\<rparr>)"
  using add_follows_policy [OF store_ok_unbalanced3, of 200 240]
  by (simp add: unbalanced3_def policy_unbalanced3)

lemma init_state_3:
  "init_state 3 = \<lparr>GBLnumCores = 3, GBLnodeLists = [[], [], []],
      GBLsearchResults = [], sock_out = (\<lambda>fd. []), diags = []\<rparr>"
proof -
  have "unat (3 :: 32 word) = 3" by simp
  then have "replicate (unat (3 :: 32 word)) ([] :: Node list) = replicate 3 []" by simp
  also have "\<dots> = [[], [], []]" by (simp add: numeral_3_eq_3)
  finally have "replicate (unat (3 :: 32 word)) ([] :: Node list) = [[], [], []]" .
  then show ?thesis by (simp add: init_state_def)
qed

text \<open>
  C3. "insert adds one Entry to exactly one shard" (the comment of \<open>add\<close> says the
  same: "Add a node to the shortest list", "if the second is shorter than the first: add
  to that. Else compare second and third"): with three shards, the first \<open>add\<close> on the
  empty store puts its node in shard 0, and the second \<open>add\<close> puts its node both in
  shard 1 and in shard 2.
\<close>

theorem add_empty3_then_again:
  "add 100 15 (init_state 3) = Inr unbalanced3
   \<and> add 200 240 unbalanced3 =
     Inr (unbalanced3\<lparr>GBLnodeLists :=
       [[\<lparr>Node.dbId = 100, pHash = 15\<rparr>], [\<lparr>Node.dbId = 200, pHash = 240\<rparr>],
        [\<lparr>Node.dbId = 200, pHash = 240\<rparr>]]\<rparr>)"
  unfolding init_state_3 by (simp add: add_def unbalanced3_def add_loop.simps Let_def)

text \<open>
  C9. On a store of \<open>N\<close> shards as \<open>main\<close> sets it up, one call of \<open>add\<close> returns; each
  shard is left as it was or with the new node in front (nothing is removed); the
  number of nodes grows by at least 1 and at most \<open>max 1 (N - 1)\<close>; and shard \<open>i + 1\<close>
  gets the node exactly when its size is smaller than the live size of shard \<open>i\<close>, the
  size that includes an insertion made for the pair before it in the same call.
\<close>

theorem add_appends_under_live_sizes:
  assumes "store_ok w"
  shows "\<exists>new. add h d w = Inr (w\<lparr>GBLnodeLists := new\<rparr>)
     \<and> (let old = GBLnodeLists w; nd = \<lparr>Node.dbId = h, pHash = d\<rparr> in
          length new = length old
        \<and> (\<forall>i<length old. new ! i = old ! i \<or> new ! i = nd # old ! i)
        \<and> length (concat old) + 1 \<le> length (concat new)
        \<and> length (concat new) \<le> length (concat old) + max 1 (length old - 1)
        \<and> (\<forall>i. i + 1 < length old \<longrightarrow>
              (new ! (i + 1) = nd # old ! (i + 1)) = (length (old ! (i + 1)) < live_size old new i)))"
proof -
  define old where "old = GBLnodeLists w"
  define nd where "nd = \<lparr>Node.dbId = h, pHash = d\<rparr>"
  define new where "new = policy nd old"
  have pos: "0 < length old"
    using store_ok_bound [OF assms] by (simp add: old_def)
  note pc = policy_characterised [OF pos, where nd = nd, folded new_def]
  have run: "add h d w = Inr (w\<lparr>GBLnodeLists := new\<rparr>)"
    unfolding new_def nd_def old_def using assms by (rule add_policy)
  have each: "new ! i = old ! i \<or> new ! i = nd # old ! i" if "i < length old" for i
  proof (cases i)
    case 0
    then show ?thesis using pc(3) by simp
  next
    case (Suc j)
    then have "j + 1 < length old" using that by simp
    then show ?thesis using pc(2) [of j] Suc by simp
  qed
  have live: "(new ! (i + 1) = nd # old ! (i + 1)) = (length (old ! (i + 1)) < live_size old new i)"
    if "i + 1 < length old" for i
    using pc(2) [OF that] by simp
  show ?thesis
    unfolding Let_def old_def [symmetric] nd_def [symmetric]
    using run pc(1) each pc(4) pc(5) live by blast
qed

theorem add_appends_under_live_sizes_witness:
  "add 200 240 unbalanced3 =
     Inr (unbalanced3\<lparr>GBLnodeLists :=
       [[\<lparr>Node.dbId = 100, pHash = 15\<rparr>], [\<lparr>Node.dbId = 200, pHash = 240\<rparr>],
        [\<lparr>Node.dbId = 200, pHash = 240\<rparr>]]\<rparr>)
   \<and> length (GBLnodeLists unbalanced3 ! 2) = length (GBLnodeLists unbalanced3 ! 1)
   \<and> (\<exists>new. add 200 240 unbalanced3 = Inr (unbalanced3\<lparr>GBLnodeLists := new\<rparr>)
        \<and> length (concat new) = 3
        \<and> live_size (GBLnodeLists unbalanced3) new 1 = 1)"
proof -
  have run: "add 200 240 unbalanced3 =
     Inr (unbalanced3\<lparr>GBLnodeLists :=
       [[\<lparr>Node.dbId = 100, pHash = 15\<rparr>], [\<lparr>Node.dbId = 200, pHash = 240\<rparr>],
        [\<lparr>Node.dbId = 200, pHash = 240\<rparr>]]\<rparr>)"
    by (simp add: add_def unbalanced3_def add_loop.simps Let_def)
  obtain new where new: "add 200 240 unbalanced3 = Inr (unbalanced3\<lparr>GBLnodeLists := new\<rparr>)"
    using add_appends_under_live_sizes [OF store_ok_unbalanced3, of 200 240] by blast
  then have "new = [[\<lparr>Node.dbId = 100, pHash = 15\<rparr>], [\<lparr>Node.dbId = 200, pHash = 240\<rparr>],
        [\<lparr>Node.dbId = 200, pHash = 240\<rparr>]]"
    unfolding run by (simp add: unbalanced3_def)
  then have "length (concat new) = 3 \<and> live_size (GBLnodeLists unbalanced3) new 1 = 1"
    by (simp add: live_size_def)
  with new run show ?thesis
    by (auto simp: unbalanced3_def)
qed

lemma store_ok_take:
  "store_ok w \<Longrightarrow> take (unat (GBLnumCores w)) (GBLnodeLists w) = GBLnodeLists w"
  by (simp add: store_ok_def)

lemma expected_matches_bound:
  "m \<in># expected_matches q d shards \<Longrightarrow> distance m \<le> d"
  by (auto simp: expected_matches_def match_of_def)

lemma search_exact:
  assumes "store_ok w"
    and "\<forall>i<unat (GBLnumCores w). pthread_create_rc e i = 0"
  shows "\<exists>found. search e q d w = Inr (w\<lparr>GBLsearchResults := found\<rparr>)
           \<and> mset found = expected_matches q (uint d) (GBLnodeLists w)
           \<and> (\<forall>m\<in>set found. distance m \<le> uint d)"
proof -
  define found where
    "found = run_workers (sched e) q (uint d) (GBLnodeLists w) []"
  have no_fail: "\<not> list_ex (\<lambda>i. pthread_create_rc e i \<noteq> 0) [0..<unat (GBLnumCores w)]"
    using assms(2) by (simp add: list_ex_iff)
  have len: "\<not> length (GBLnodeLists w) < unat (GBLnumCores w)"
    using assms(1) by (simp add: store_ok_def)
  have run: "search e q d w = Inr (w\<lparr>GBLsearchResults := found\<rparr>)"
    unfolding search_def Let_def found_def
    using no_fail len by (simp add: store_ok_take [OF assms(1)])
  have exact: "mset found = expected_matches q (uint d) (GBLnodeLists w)"
    unfolding found_def by (simp add: run_workers_mset)
  have "distance m \<le> uint d" if "m \<in> set found" for m
  proof -
    from that have "m \<in># expected_matches q (uint d) (GBLnodeLists w)"
      unfolding exact [symmetric] by simp
    then show ?thesis by (rule expected_matches_bound)
  qed
  with run exact show ?thesis by blast
qed

text \<open>
  C1. On a store as \<open>main\<close> sets it up, when every \<open>pthread_create\<close> succeeds, \<open>search\<close>
  returns, whatever the scheduler does and whatever the vector held before; the vector
  then holds exactly one Match for each stored node within the threshold (no omission,
  no extra, nothing left from an earlier search), every Match in it has a distance of
  at most the threshold, and nothing else of the state changes.
\<close>

theorem search_threshold_complete:
  assumes "store_ok w"
    and "\<forall>i<unat (GBLnumCores w). pthread_create_rc e i = 0"
  shows "\<exists>found. search e q d w = Inr (w\<lparr>GBLsearchResults := found\<rparr>)
           \<and> mset found = expected_matches q (uint d) (GBLnodeLists w)
           \<and> (\<forall>m\<in>set found. distance m \<le> uint d)"
  using assms by (rule search_exact)

lemma hamming_samples:
  "hamming 15 15 = 0" "hamming 15 240 = 8" "hamming 15 14 = 1" "hamming 15 0 = 4"
  by code_simp+

theorem search_threshold_complete_witness:
  "\<exists>found. search quiet_env 15 1 two_shards = Inr (two_shards\<lparr>GBLsearchResults := found\<rparr>)
      \<and> mset found = {#\<lparr>Match.dbId = 1, distance = 0\<rparr>, \<lparr>Match.dbId = 3, distance = 1\<rparr>#}"
proof -
  have ok: "store_ok two_shards"
    by (simp add: store_ok_def two_shards_def)
  have spawn: "\<forall>i<unat (GBLnumCores two_shards). pthread_create_rc quiet_env i = 0"
    by (simp add: quiet_env_def)
  have "expected_matches 15 (uint (1 :: 8 word)) (GBLnodeLists two_shards) =
        {#\<lparr>Match.dbId = 1, distance = 0\<rparr>, \<lparr>Match.dbId = 3, distance = 1\<rparr>#}"
    by (simp add: expected_matches_def match_of_def two_shards_def hamming_samples)
  then show ?thesis
    using search_threshold_complete [OF ok spawn, of 15 1] by auto
qed

section \<open>Properties of the protocol handler\<close>

lemma memchr_nl_None: "memchr_nl s = None \<longleftrightarrow> CHR 0x0A \<notin> set s"
  by (simp add: memchr_nl_def)

lemma takeWhile_line:
  "CHR 0x0A \<notin> set l \<Longrightarrow> takeWhile (\<lambda>c. c \<noteq> CHR 0x0A) (l @ CHR 0x0A # s) = l"
  by (induction l) auto

lemma memchr_nl_line: "CHR 0x0A \<notin> set l \<Longrightarrow> memchr_nl (l @ CHR 0x0A # s) = Some (length l)"
  by (simp add: memchr_nl_def takeWhile_line)

lemma memchr_nl_split:
  assumes "memchr_nl s = Some k"
  obtains l r where "s = l @ CHR 0x0A # r" and "CHR 0x0A \<notin> set l" and "length l = k"
proof -
  let ?P = "\<lambda>c. c \<noteq> CHR 0x0A"
  from assms have mem: "CHR 0x0A \<in> set s" and k: "length (takeWhile ?P s) = k"
    by (auto simp: memchr_nl_def split: if_splits)
  from mem have "dropWhile ?P s \<noteq> []"
    by (auto simp: dropWhile_eq_Nil_conv)
  then obtain y r where d: "dropWhile ?P s = y # r"
    by (cases "dropWhile ?P s") auto
  have y: "y = CHR 0x0A"
    using hd_dropWhile [of ?P s] \<open>dropWhile ?P s \<noteq> []\<close> d by simp
  have "takeWhile ?P s @ dropWhile ?P s = s" by simp
  then have "takeWhile ?P s @ CHR 0x0A # r = s" unfolding d y .
  then have "s = takeWhile ?P s @ CHR 0x0A # r" by (rule sym)
  moreover have "CHR 0x0A \<notin> set (takeWhile ?P s)"
    by (auto dest: set_takeWhileD)
  ultimately show thesis using k that by blast
qed

lemma memchr_nl_append:
  assumes "memchr_nl b = Some k"
  shows "memchr_nl (b @ s) = Some k"
proof -
  obtain l r where "b = l @ CHR 0x0A # r" and "CHR 0x0A \<notin> set l" and "length l = k"
    using assms by (rule memchr_nl_split)
  then show ?thesis
    using memchr_nl_line [of l "r @ s"] by simp
qed

lemma memchr_nl_beyond:
  assumes "CHR 0x0A \<notin> set b" and "memchr_nl (b @ s) = Some k"
  shows "length b \<le> k"
proof -
  obtain l r where split: "b @ s = l @ CHR 0x0A # r" and nl: "CHR 0x0A \<notin> set l" and len: "length l = k"
    using assms(2) by (rule memchr_nl_split)
  show ?thesis
  proof (rule ccontr)
    assume "\<not> length b \<le> k"
    then have "k < length b" by simp
    then have "b ! k = (b @ s) ! k" by (simp add: nth_append)
    also have "\<dots> = CHR 0x0A" unfolding split using len by (simp add: nth_append)
    finally show False using assms(1) \<open>k < length b\<close> by (metis nth_mem)
  qed
qed

lemma take_drop_line:
  assumes "memchr_nl b = Some k"
  shows "take k (b @ s) = take k b" and "drop (k + 1) (b @ s) = drop (k + 1) b @ s"
  using memchr_nl_less [OF assms] by simp_all

lemma process_lines_rest:
  "process_lines proc b st = Inr (st', rest) \<Longrightarrow>
   CHR 0x0A \<notin> set rest \<and> length rest \<le> length b"
proof (induction proc b st rule: process_lines.induct)
  case (1 proc buf st)
  show ?case
  proof (cases "memchr_nl buf")
    case None
    then have "process_lines proc buf st = Inr (st, buf)"
      by (subst process_lines.simps) simp
    with "1.prems" None show ?thesis
      by (simp add: memchr_nl_None)
  next
    case (Some k)
    show ?thesis
    proof (cases "proc st (c_str (take k buf))")
      case (Inl f)
      then have "process_lines proc buf st = Inl f"
        using Some by (subst process_lines.simps) simp
      with "1.prems" show ?thesis by simp
    next
      case (Inr st1)
      then have "process_lines proc buf st = process_lines proc (drop (k + 1) buf) st1"
        using Some by (subst process_lines.simps) simp
      with "1.prems" have "process_lines proc (drop (k + 1) buf) st1 = Inr (st', rest)"
        by simp
      from "1.IH" [OF Some Inr this]
      have "CHR 0x0A \<notin> set rest" and "length rest \<le> length (drop (k + 1) buf)"
        by simp_all
      then show ?thesis by (simp add: le_diff_conv)
    qed
  qed
qed

lemma frame_no_line_full:
  assumes "CHR 0x0A \<notin> set b" and "length b = bufferSize"
  shows "frame proc (b @ s) st = Inr (st, TooLong)"
proof (cases "memchr_nl (b @ s)")
  case None
  then show ?thesis
    using assms(2) by (subst frame.simps) simp
next
  case (Some k)
  then have "length b \<le> k" using assms(1) by (simp add: memchr_nl_beyond)
  then have "\<not> k < bufferSize" using assms(2) by simp
  then show ?thesis
    using Some by (subst frame.simps) simp
qed

lemma frame_process_lines:
  "length b \<le> bufferSize \<Longrightarrow>
   frame proc (b @ s) st =
     (case process_lines proc b st of
        Inl f \<Rightarrow> Inl f
      | Inr (st', rest) \<Rightarrow>
          if length rest = bufferSize then Inr (st', TooLong) else frame proc (rest @ s) st')"
proof (induction proc b st rule: process_lines.induct)
  case (1 proc buf st)
  show ?case
  proof (cases "memchr_nl buf")
    case None
    then have pl: "process_lines proc buf st = Inr (st, buf)"
      by (subst process_lines.simps) simp
    show ?thesis
    proof (cases "length buf = bufferSize")
      case True
      then show ?thesis
        using None frame_no_line_full [of buf proc s st] by (simp add: pl memchr_nl_None)
    next
      case False
      then show ?thesis by (simp add: pl)
    qed
  next
    case (Some k)
    have kb: "k < bufferSize"
      using memchr_nl_less [OF Some] "1.prems" by simp
    have fr: "frame proc (buf @ s) st =
          (case proc st (c_str (take k buf)) of
             Inl f \<Rightarrow> Inl f
           | Inr st1 \<Rightarrow> frame proc (drop (k + 1) buf @ s) st1)"
      by (subst frame.simps)
        (simp only: memchr_nl_append [OF Some] take_drop_line [OF Some] kb
           option.case if_True)
    show ?thesis
    proof (cases "proc st (c_str (take k buf))")
      case (Inl f)
      then have "process_lines proc buf st = Inl f"
        using Some by (subst process_lines.simps) simp
      then show ?thesis using fr Inl by simp
    next
      case (Inr st1)
      then have pl: "process_lines proc buf st = process_lines proc (drop (k + 1) buf) st1"
        using Some by (subst process_lines.simps) simp
      have "length (drop (k + 1) buf) \<le> bufferSize"
        using "1.prems" by simp
      from "1.IH" [OF Some Inr this] show ?thesis
        using fr Inr pl by simp
    qed
  qed
qed

lemma recv_well_chunked:
  assumes "well_chunked rx" and "0 < len"
  shows "(rx = [] \<and> recv rx len = Closed)
       \<or> (\<exists>bs rx'. recv rx len = Received bs rx' \<and> stream_of rx = bs @ stream_of rx'
             \<and> well_chunked rx' \<and> length bs \<le> len)"
proof (cases rx)
  case Nil
  then show ?thesis by simp
next
  case (Cons ev rx0)
  with assms(1) obtain bs where ev: "ev = Bytes bs" and ne: "bs \<noteq> []" and wc: "well_chunked rx0"
    by (cases ev) (auto simp: well_chunked_def)
  show ?thesis
  proof (cases "length bs \<le> len")
    case True
    then show ?thesis
      using Cons ev ne wc assms(2) by (simp add: stream_of_def)
  next
    case False
    then have "drop len bs \<noteq> []" by simp
    then show ?thesis
      using Cons ev ne wc assms(2) False by (simp add: stream_of_def well_chunked_def)
  qed
qed

lemma frame_short_no_line:
  "CHR 0x0A \<notin> set b \<Longrightarrow> length b < bufferSize \<Longrightarrow> frame proc b st = Inr (st, PeerClosed)"
  by (subst frame.simps) (simp add: memchr_nl_def)

lemma readCommands_loop_frame:
  "well_chunked rx \<Longrightarrow> CHR 0x0A \<notin> set buf \<Longrightarrow> length buf < bufferSize \<Longrightarrow>
   readCommands_loop proc buf rx st = frame proc (buf @ stream_of rx) st"
proof (induction proc buf rx st rule: readCommands_loop.induct)
  case (1 proc buf rx st)
  have pos: "0 < bufferSize - length buf" using "1.prems"(3) by simp
  from recv_well_chunked [OF "1.prems"(1) pos] show ?case
  proof (elim disjE conjE exE)
    assume "rx = []" and "recv rx (bufferSize - length buf) = Closed"
    then show ?thesis
      using "1.prems" by (subst readCommands_loop.simps) (simp add: stream_of_def frame_short_no_line)
  next
    fix bs rx'
    assume r: "recv rx (bufferSize - length buf) = Received bs rx'"
      and st: "stream_of rx = bs @ stream_of rx'"
      and wc: "well_chunked rx'"
      and le: "length bs \<le> bufferSize - length buf"
    have fits: "length (buf @ bs) \<le> bufferSize"
      using le "1.prems"(3) by simp
    have fr: "frame proc (buf @ stream_of rx) st =
        (case process_lines proc (buf @ bs) st of
           Inl f \<Rightarrow> Inl f
         | Inr (st', rest) \<Rightarrow>
             if length rest = bufferSize then Inr (st', TooLong)
             else frame proc (rest @ stream_of rx') st')"
      using frame_process_lines [OF fits, of proc "stream_of rx'" st] by (simp add: st)
    show ?thesis
    proof (cases "process_lines proc (buf @ bs) st")
      case (Inl f)
      then show ?thesis
        using r fr by (subst readCommands_loop.simps) simp
    next
      case (Inr p)
      obtain st' rest where p: "p = (st', rest)" by (cases p)
      note rest = process_lines_rest [OF Inr [unfolded p]]
      show ?thesis
      proof (cases "length rest = bufferSize")
        case True
        then show ?thesis
          using r fr Inr p by (subst readCommands_loop.simps) simp
      next
        case False
        then have short: "length rest < bufferSize"
          using rest fits by simp
        have "readCommands_loop proc rest rx' st' = frame proc (rest @ stream_of rx') st'"
          using "1.IH" [OF r Inr p [symmetric] False wc _ short] rest by simp
        then show ?thesis
          using r fr Inr p False by (subst readCommands_loop.simps) simp
      qed
    qed
  qed
qed

lemma drop_line: "drop (length l + 1) (l @ c # s) = s"
  by (induction l) auto

lemma frame_wire:
  "short_lines ls \<Longrightarrow>
   frame proc (wire ls @ rest) st =
     (case process_all proc (map c_str ls) st of
        Inl f \<Rightarrow> Inl f
      | Inr st' \<Rightarrow> frame proc rest st')"
proof (induction ls arbitrary: st)
  case Nil
  show ?case by (simp add: wire_def)
next
  case (Cons l ls)
  then have nl: "CHR 0x0A \<notin> set l" and len: "length l < bufferSize" and rest: "short_lines ls"
    by (simp_all add: short_lines_def)
  have w: "wire (l # ls) @ rest = l @ CHR 0x0A # (wire ls @ rest)"
    by (simp add: wire_def)
  have m: "memchr_nl (l @ CHR 0x0A # (wire ls @ rest)) = Some (length l)"
    using nl by (rule memchr_nl_line)
  have fr: "frame proc (wire (l # ls) @ rest) st =
          (case proc st (c_str l) of
             Inl f \<Rightarrow> Inl f
           | Inr st1 \<Rightarrow> frame proc (wire ls @ rest) st1)"
    unfolding w by (subst frame.simps) (simp add: m len drop_line cong: sum.case_cong)
  show ?case
  proof (cases "proc st (c_str l)")
    case (Inl f)
    then show ?thesis using fr by simp
  next
    case (Inr st1)
    then show ?thesis using fr Cons.IH [OF rest, of st1] by simp
  qed
qed

lemma frame_over:
  assumes "bufferSize \<le> length over" and "CHR 0x0A \<notin> set (take bufferSize over)"
  shows "frame proc over st = Inr (st, TooLong)"
proof -
  have "frame proc (take bufferSize over @ drop bufferSize over) st = Inr (st, TooLong)"
    using assms by (intro frame_no_line_full) simp_all
  then show ?thesis by simp
qed

lemma well_chunked_empty_stream: "well_chunked rx \<Longrightarrow> stream_of rx = [] \<Longrightarrow> rx = []"
proof (cases rx)
  case Nil
  then show ?thesis by simp
next
  case (Cons ev rx0)
  assume "well_chunked rx" and "stream_of rx = []"
  with Cons show ?thesis
    by (cases ev) (auto simp: well_chunked_def stream_of_def)
qed

lemma one_block:
  assumes "well_chunked rx"
  shows "readCommands_loop proc [] rx st = readCommands_loop proc [] [Bytes (stream_of rx)] st"
proof (cases "stream_of rx = []")
  case True
  then have "rx = []" using assms by (simp add: well_chunked_empty_stream)
  moreover have "readCommands_loop proc [] [] st = Inr (st, PeerClosed)"
    by (subst readCommands_loop.simps) simp
  moreover have "readCommands_loop proc [] [Bytes []] st = Inr (st, PeerClosed)"
    by (subst readCommands_loop.simps) simp
  ultimately show ?thesis
    using True by simp
next
  case False
  then have wc: "well_chunked [Bytes (stream_of rx)]"
    by (simp add: well_chunked_def)
  have pos: "length ([] :: string) < bufferSize" by (simp add: bufferSize_def)
  have "readCommands_loop proc [] rx st = frame proc ([] @ stream_of rx) st"
    using assms pos by (intro readCommands_loop_frame) simp_all
  also have "\<dots> = frame proc ([] @ stream_of [Bytes (stream_of rx)]) st"
    by (simp add: stream_of_def)
  also have "\<dots> = readCommands_loop proc [] [Bytes (stream_of rx)] st"
    using wc pos by (intro readCommands_loop_frame [symmetric]) simp_all
  finally show ?thesis .
qed

lemma loop_on_lines:
  assumes "well_chunked rx"
    and "stream_of rx = wire ls @ tail"
    and "short_lines ls"
    and "CHR 0x0A \<notin> set tail" and "length tail < bufferSize"
  shows "readCommands_loop proc [] rx st = then_ending (process_all proc (map c_str ls) st) PeerClosed"
proof -
  have pos: "length ([] :: string) < bufferSize" by (simp add: bufferSize_def)
  have "readCommands_loop proc [] rx st = frame proc ([] @ stream_of rx) st"
    using assms(1) pos by (intro readCommands_loop_frame) simp_all
  also have "\<dots> = (case process_all proc (map c_str ls) st of
        Inl f \<Rightarrow> Inl f
      | Inr st' \<Rightarrow> frame proc tail st')"
    using frame_wire [OF assms(3), of proc tail st] by (simp add: assms(2))
  also have "\<dots> = then_ending (process_all proc (map c_str ls) st) PeerClosed"
    using assms(4,5) by (simp add: then_ending_def frame_short_no_line split: sum.splits)
  finally show ?thesis .
qed

lemma init_state_2:
  "init_state 2 = \<lparr>GBLnumCores = 2, GBLnodeLists = [[], []],
      GBLsearchResults = [], sock_out = (\<lambda>fd. []), diags = []\<rparr>"
proof -
  have "unat (2 :: 32 word) = 2" by simp
  then have "replicate (unat (2 :: 32 word)) ([] :: Node list) = replicate 2 []" by simp
  also have "\<dots> = [[], []]" by (simp add: numeral_2_eq_2)
  finally show ?thesis by (simp add: init_state_def)
qed

text \<open>
  C4. For input made of lines within the budget (and possibly an unfinished last line),
  however the transport cuts it into arrivals: the handler gets each complete line
  exactly once, in order, and the loop ends when the peer closes; the outcome is the
  one of the same input arriving as one block; and whenever the inner loop hands control
  back to \<open>recv\<close>, no complete line is left in the buffer.
\<close>

theorem framing_chunk_independent:
  assumes "well_chunked rx"
    and "stream_of rx = wire ls @ tail"
    and "short_lines ls"
    and "CHR 0x0A \<notin> set tail" and "length tail < bufferSize"
  shows "readCommands_loop proc [] rx st = then_ending (process_all proc (map c_str ls) st) PeerClosed
       \<and> readCommands_loop proc [] rx st = readCommands_loop proc [] [Bytes (stream_of rx)] st
       \<and> (\<forall>buf st0 st1 rest. process_lines proc buf st0 = Inr (st1, rest) \<longrightarrow> CHR 0x0A \<notin> set rest)"
proof -
  have first: "readCommands_loop proc [] rx st =
      then_ending (process_all proc (map c_str ls) st) PeerClosed"
    using assms by (rule loop_on_lines)
  have third: "\<forall>buf st0 st1 rest. process_lines proc buf st0 = Inr (st1, rest) \<longrightarrow> CHR 0x0A \<notin> set rest"
  proof (intro allI impI)
    fix buf st0 st1 rest
    assume "process_lines proc buf st0 = Inr (st1, rest)"
    from process_lines_rest [OF this] show "CHR 0x0A \<notin> set rest" by simp
  qed
  show ?thesis
    by (intro conjI) (rule first, rule one_block [OF assms(1)], rule third)
qed

theorem framing_chunk_independent_witness:
  "readCommands_loop record_line []
     [Bytes (''add 1 f'' @ CHR 0x0A # ''ma''), Bytes (''tch f 0'' @ [CHR 0x0A])] []
   = Inr ([''add 1 f'', ''match f 0''], PeerClosed)
   \<and> readCommands_loop record_line []
     [Bytes (''add 1 f'' @ CHR 0x0A # ''match f 0'' @ [CHR 0x0A])] []
   = Inr ([''add 1 f'', ''match f 0''], PeerClosed)"
proof -
  let ?rx = "[Bytes (''add 1 f'' @ CHR 0x0A # ''ma''), Bytes (''tch f 0'' @ [CHR 0x0A])]"
  let ?ls = "[''add 1 f'', ''match f 0'']"
  have wc: "well_chunked ?rx" by (simp add: well_chunked_def)
  have st: "stream_of ?rx = wire ?ls @ []" by (simp add: stream_of_def wire_def)
  have sl: "short_lines ?ls" by (simp add: short_lines_def bufferSize_def)
  have t: "CHR 0x0A \<notin> set ([] :: string)" "length ([] :: string) < bufferSize"
    by (simp_all add: bufferSize_def)
  have pa: "then_ending (process_all record_line (map c_str ?ls) []) PeerClosed
            = Inr (?ls, PeerClosed)"
    by (simp add: then_ending_def record_line_def c_str_def)
  note r = framing_chunk_independent [OF wc st sl t, of record_line "[]", unfolded pa]
  have a: "readCommands_loop record_line [] ?rx [] = Inr (?ls, PeerClosed)"
    using r by (rule conjunct1)
  have "readCommands_loop record_line [] ?rx [] =
        readCommands_loop record_line [] [Bytes (stream_of ?rx)] []"
    using r by blast
  then have b: "readCommands_loop record_line []
        [Bytes (''add 1 f'' @ CHR 0x0A # ''match f 0'' @ [CHR 0x0A])] [] = Inr (?ls, PeerClosed)"
    unfolding a by (simp add: stream_of_def)
  show ?thesis
    using a b by (rule conjI)
qed

lemma loop_on_oversized:
  assumes "well_chunked rx"
    and "stream_of rx = wire ls @ over"
    and "short_lines ls"
    and "bufferSize \<le> length over" and "CHR 0x0A \<notin> set (take bufferSize over)"
  shows "readCommands_loop proc [] rx st = then_ending (process_all proc (map c_str ls) st) TooLong"
proof -
  have pos: "length ([] :: string) < bufferSize" by (simp add: bufferSize_def)
  have "readCommands_loop proc [] rx st = frame proc ([] @ stream_of rx) st"
    using assms(1) pos by (intro readCommands_loop_frame) simp_all
  also have "\<dots> = (case process_all proc (map c_str ls) st of
        Inl f \<Rightarrow> Inl f
      | Inr st' \<Rightarrow> frame proc over st')"
    using frame_wire [OF assms(3), of proc over st] by (simp add: assms(2))
  also have "\<dots> = then_ending (process_all proc (map c_str ls) st) TooLong"
    using assms(4,5) by (simp add: then_ending_def frame_over split: sum.splits)
  finally show ?thesis .
qed

text \<open>
  C7. When the input, after lines within the budget, goes on for \<open>bufferSize\<close> bytes
  or more with no newline among the first \<open>bufferSize\<close> of them, the loop ends (for
  every way the transport cuts the input), \<open>readCommands\<close> reports the command as too
  long and returns to \<open>main\<close>, which closes the connection; the handler has been
  given the lines before the oversized one and nothing of the oversized one. Lines of up
  to 1024 bytes with their newline are among those still processed.
\<close>

theorem oversized_line_closes:
  assumes "well_chunked rx"
    and "stream_of rx = wire ls @ over"
    and "short_lines ls"
    and "bufferSize \<le> length over" and "CHR 0x0A \<notin> set (take bufferSize over)"
  shows "readCommands_loop proc [] rx st = then_ending (process_all proc (map c_str ls) st) TooLong
       \<and> readCommands e socket rx w =
           (case process_all (processCommand e socket) (map c_str ls) w of
              Inl f \<Rightarrow> Inl f
            | Inr w' \<Rightarrow> Inr (w'\<lparr>diags := diags w' @ [CommandTooLong]\<rparr>, TooLong))"
proof -
  have "readCommands_loop (processCommand e socket) [] rx w =
        then_ending (process_all (processCommand e socket) (map c_str ls) w) TooLong"
    using assms by (rule loop_on_oversized)
  then have "readCommands e socket rx w =
           (case process_all (processCommand e socket) (map c_str ls) w of
              Inl f \<Rightarrow> Inl f
            | Inr w' \<Rightarrow> Inr (w'\<lparr>diags := diags w' @ [CommandTooLong]\<rparr>, TooLong))"
    by (simp add: readCommands_def then_ending_def split: sum.splits)
  then show ?thesis
    using loop_on_oversized [OF assms, of proc st] by simp
qed

theorem oversized_line_closes_witness:
  "readCommands_loop record_line []
     [Bytes (replicate 1023 (CHR ''a'') @ [CHR 0x0A]), Bytes (replicate 2000 (CHR ''b''))] []
   = Inr ([replicate 1023 (CHR ''a'')], TooLong)
   \<and> readCommands quiet_env 4 [Bytes (replicate 2000 (CHR ''b''))] (init_state 2)
   = Inr ((init_state 2)\<lparr>diags := [CommandTooLong]\<rparr>, TooLong)"
proof -
  let ?rx = "[Bytes (replicate 1023 (CHR ''a'') @ [CHR 0x0A]), Bytes (replicate 2000 (CHR ''b''))]"
  let ?ls = "[replicate 1023 (CHR ''a'')]"
  let ?over = "replicate 2000 (CHR ''b'')"
  have wc: "well_chunked ?rx" "well_chunked [Bytes ?over]"
    by (simp_all add: well_chunked_def)
  have st: "stream_of ?rx = wire ?ls @ ?over" "stream_of [Bytes ?over] = wire [] @ ?over"
    by (simp_all add: stream_of_def wire_def)
  have sl: "short_lines ?ls" "short_lines []"
    by (simp_all add: short_lines_def bufferSize_def)
  have ov: "bufferSize \<le> length ?over" "CHR 0x0A \<notin> set (take bufferSize ?over)"
    by (simp_all add: bufferSize_def)
  have pa: "then_ending (process_all record_line (map c_str ?ls) []) TooLong
            = Inr (?ls, TooLong)"
    by (simp add: then_ending_def record_line_def c_str_def takeWhile_replicate)
  have a: "readCommands_loop record_line [] ?rx [] = Inr (?ls, TooLong)"
    using oversized_line_closes [OF wc(1) st(1) sl(1) ov, of record_line "[]"]
    unfolding pa by (rule conjunct1)
  have b: "readCommands quiet_env 4 [Bytes ?over] (init_state 2)
           = Inr ((init_state 2)\<lparr>diags := [CommandTooLong]\<rparr>, TooLong)"
    using oversized_line_closes [OF wc(2) st(2) sl(2) ov, of _ _ quiet_env 4 "init_state 2",
        THEN conjunct2]
    by (simp add: init_state_2)
  show ?thesis
    using a b by (rule conjI)
qed

section \<open>Properties of the scanner\<close>

lemma digit_not_special:
  "is_digit base c \<Longrightarrow>
   \<not> isspace c \<and> c \<noteq> CHR ''-'' \<and> c \<noteq> CHR ''+'' \<and> c \<noteq> CHR ''x'' \<and> c \<noteq> CHR ''X''"
  by (auto simp: is_digit_def digit_of_def isspace_def Let_def)

lemma space_not_digit: "\<not> is_digit base (CHR '' '')"
  by (simp add: is_digit_def digit_of_def Let_def)

lemma zero_special:
  "\<not> isspace (CHR ''0'')" "CHR ''0'' \<noteq> CHR ''-''" "CHR ''0'' \<noteq> CHR ''+''"
  by (simp_all add: isspace_def)

lemma sign_not_space: "\<not> isspace (CHR ''-'')" "\<not> isspace (CHR ''+'')"
  by (simp_all add: isspace_def)

lemma scan_literal_prefix: "scan_literal kw (kw @ s) = Scanned () s"
  by (induction kw) simp_all

lemma scan_literal_sound: "scan_literal kw l = Scanned u s \<Longrightarrow> l = kw @ s"
  by (induction kw l rule: scan_literal.induct) (auto split: if_splits)

lemma digits_value_zero:
  assumes "is_digit base (CHR ''0'')"
  shows "digits_value base (CHR ''0'' # ds) = digits_value base ds"
proof -
  have "digit_of base (CHR ''0'') = Some 0"
    using assms by (auto simp: is_digit_def digit_of_def Let_def split: if_splits)
  then show ?thesis by (simp add: digits_value_def)
qed

lemma takeWhile_stops:
  assumes "list_all (is_digit base) ds" and "stops base rest"
  shows "takeWhile (is_digit base) (ds @ rest) = ds"
    and "dropWhile (is_digit base) (ds @ rest) = rest"
proof -
  have all: "\<And>c. c \<in> set ds \<Longrightarrow> is_digit base c"
    using assms(1) by (simp add: list_all_iff)
  have stop: "takeWhile (is_digit base) rest = []" "dropWhile (is_digit base) rest = rest"
    using assms(2) by (cases rest; simp add: stops_def)+
  show "takeWhile (is_digit base) (ds @ rest) = ds"
    using all stop by (simp add: takeWhile_append2)
  show "dropWhile (is_digit base) (ds @ rest) = rest"
    using all stop by (simp add: dropWhile_append2)
qed

lemma after_zero_stops:
  assumes "list_all (is_digit base) ds" and "stops base rest"
  shows "after_zero base (ds @ rest) = ds @ rest"
proof (cases "ds @ rest")
  case Nil
  then show ?thesis by simp
next
  case (Cons x more)
  have "x \<noteq> CHR ''x'' \<and> x \<noteq> CHR ''X''"
  proof (cases ds)
    case Nil
    then have "rest = x # more" using Cons by simp
    then show ?thesis using assms(2) by (simp add: stops_def)
  next
    case (Cons y ys)
    then have "x = y" using \<open>ds @ rest = x # more\<close> by simp
    moreover have "is_digit base y" using assms(1) Cons by simp
    ultimately show ?thesis using digit_not_special by blast
  qed
  then show ?thesis using Cons by simp
qed

lemma scan_digits_plain:
  assumes "list_all (is_digit base) ds" and "ds \<noteq> []" and "stops base rest"
  shows "scan_digits neg base (ds @ rest) = Scanned (strtoul_value neg (digits_value base ds)) rest"
proof -
  obtain c cs where ds: "ds = c # cs" using assms(2) by (cases ds) auto
  have c: "is_digit base c" and cs: "list_all (is_digit base) cs"
    using assms(1) ds by simp_all
  show ?thesis
  proof (cases "c = CHR ''0''")
    case True
    have z: "is_digit base (CHR ''0'')" using c True by simp
    show ?thesis
      unfolding scan_digits_def ds True
      by (simp add: Let_def after_zero_stops [OF cs assms(3)] takeWhile_stops [OF cs assms(3)]
            digits_value_zero [OF z])
  next
    case False
    have t: "takeWhile (is_digit base) (c # (cs @ rest)) = c # cs"
      "dropWhile (is_digit base) (c # (cs @ rest)) = rest"
      using takeWhile_stops [OF assms(1,3)] by (simp_all add: ds)
    show ?thesis
      unfolding scan_digits_def ds
      using False by (simp add: Let_def t del: takeWhile.simps dropWhile.simps)
  qed
qed

lemma scan_unsigned_unsigned:
  "\<not> isspace c \<Longrightarrow> c \<noteq> CHR ''-'' \<Longrightarrow> c \<noteq> CHR ''+'' \<Longrightarrow>
   scan_unsigned base (c # cs) = scan_digits False base (c # cs)"
  by (simp add: scan_unsigned_def)

lemma scan_unsigned_signed:
  "scan_unsigned base (CHR ''-'' # cs) = scan_digits True base cs"
  "scan_unsigned base (CHR ''+'' # cs) = scan_digits False base cs"
  by (simp_all add: scan_unsigned_def isspace_def)

text \<open>The scan of digits (no sign) that are followed by a stop.\<close>

lemma scan_body_digits:
  assumes "list_all (is_digit base) ds" and "ds \<noteq> []" and "stops base rest"
  shows "scan_unsigned base (ds @ rest) = Scanned (strtoul_value False (digits_value base ds)) rest"
proof -
  obtain c cs where ds: "ds = c # cs" using assms(2) by (cases ds) auto
  have c: "is_digit base c" using assms(1) ds by simp
  note sp = digit_not_special [OF c]
  have "scan_unsigned base (c # (cs @ rest)) = scan_digits False base (c # (cs @ rest))"
    using sp by (intro scan_unsigned_unsigned) simp_all
  then show ?thesis
    using scan_digits_plain [OF assms, of False] by (simp add: ds)
qed

lemma number_end_stops: "number_end rest \<Longrightarrow> stops base rest"
  by (cases rest) (simp_all add: number_end_def stops_def space_not_digit)

lemma scan_unsigned_digits:
  assumes "list_all (is_digit base) ds" and "ds \<noteq> []" and "number_end rest"
  shows "scan_unsigned base (ds @ rest) = Scanned (strtoul_value False (digits_value base ds)) rest"
  using assms(1,2) number_end_stops [OF assms(3)] by (rule scan_body_digits)

lemma space_special: "isspace c \<Longrightarrow> \<not> is_digit base c \<and> c \<noteq> CHR ''x'' \<and> c \<noteq> CHR ''X''"
  using digit_not_special [of base c] by (auto simp: isspace_def)

lemma after_zero_cases:
  "after_zero base t = t
   \<or> (base = 16 \<and> (\<exists>x. (x = CHR ''x'' \<or> x = CHR ''X'') \<and> t = x # after_zero base t))"
  by (cases t) auto

lemma dropWhile_stop: "dropWhile P xs = [] \<or> \<not> P (hd (dropWhile P xs))"
  using hd_dropWhile [of P xs] by blast

lemma scan_digits_sound:
  assumes "scan_digits neg base s = Scanned v r" and "is_digit base (CHR ''0'')"
  shows "\<exists>body. s = body @ r \<and> digits_text base body \<and> (r = [] \<or> \<not> is_digit base (hd r))"
proof (cases s)
  case Nil
  with assms(1) show ?thesis by (simp add: scan_digits_def)
next
  case (Cons z t)
  show ?thesis
  proof (cases "z = CHR ''0''")
    case True
    define ds where "ds = takeWhile (is_digit base) (after_zero base t)"
    have r: "r = dropWhile (is_digit base) (after_zero base t)"
      using assms(1) Cons True by (simp add: scan_digits_def Let_def)
    have split: "after_zero base t = ds @ r"
      unfolding ds_def r by simp
    have all: "list_all (is_digit base) ds"
      unfolding ds_def by (auto simp: list_all_iff dest: set_takeWhileD)
    have stop: "r = [] \<or> \<not> is_digit base (hd r)"
      unfolding r by (rule dropWhile_stop)
    from after_zero_cases [of base t] show ?thesis
    proof
      assume "after_zero base t = t"
      then have "s = (CHR ''0'' # ds) @ r" using Cons True split by simp
      moreover have "digits_text base (CHR ''0'' # ds)"
        using all assms(2) by (simp add: digits_text_def)
      ultimately show ?thesis using stop by blast
    next
      assume "base = 16 \<and> (\<exists>x. (x = CHR ''x'' \<or> x = CHR ''X'') \<and> t = x # after_zero base t)"
      then obtain x where b: "base = 16" and x: "x = CHR ''x'' \<or> x = CHR ''X''"
        and t: "t = x # after_zero base t" by blast
      have "s = (CHR ''0'' # x # ds) @ r" using Cons True split t by simp
      moreover have "digits_text base (CHR ''0'' # x # ds)"
        using all b x by (auto simp: digits_text_def)
      ultimately show ?thesis using stop by blast
    qed
  next
    case False
    define ds where "ds = takeWhile (is_digit base) s"
    have ne: "ds \<noteq> []" and r: "r = dropWhile (is_digit base) s"
      using assms(1) Cons False by (auto simp: scan_digits_def Let_def ds_def split: if_splits)
    have "s = ds @ r" unfolding ds_def r by simp
    moreover have "list_all (is_digit base) ds"
      unfolding ds_def by (auto simp: list_all_iff dest: set_takeWhileD)
    moreover have "r = [] \<or> \<not> is_digit base (hd r)"
      unfolding r by (rule dropWhile_stop)
    ultimately show ?thesis using ne by (auto simp: digits_text_def)
  qed
qed

lemma number_textI: "sign_text sg \<Longrightarrow> digits_text base body \<Longrightarrow> number_text base (sg @ body)"
  unfolding number_text_def by blast

lemma scan_unsigned_sound:
  assumes "scan_unsigned base s = Scanned v r" and "is_digit base (CHR ''0'')"
  shows "\<exists>ws n. s = ws @ n @ r \<and> blank ws \<and> number_text base n
           \<and> (r = [] \<or> \<not> is_digit base (hd r))"
proof -
  define ws where "ws = takeWhile isspace s"
  have bl: "blank ws"
    unfolding ws_def blank_def by (auto simp: list_all_iff dest: set_takeWhileD)
  have s: "s = ws @ dropWhile isspace s" unfolding ws_def by simp
  show ?thesis
  proof (cases "dropWhile isspace s")
    case Nil
    with assms(1) show ?thesis by (simp add: scan_unsigned_def)
  next
    case (Cons c cs)
    consider (minus) "c = CHR ''-''" | (plus) "c = CHR ''+''"
      | (none) "c \<noteq> CHR ''-''" "c \<noteq> CHR ''+''" by blast
    then show ?thesis
    proof cases
      case minus
      then have "scan_digits True base cs = Scanned v r"
        using assms(1) Cons by (simp add: scan_unsigned_def)
      from scan_digits_sound [OF this assms(2)] obtain body where
        b: "cs = body @ r" "digits_text base body" "r = [] \<or> \<not> is_digit base (hd r)" by blast
      have "number_text base (''-'' @ body)"
        using b(2) by (intro number_textI) (simp_all add: sign_text_def)
      moreover have "s = ws @ (''-'' @ body) @ r"
        using s Cons minus b(1) by simp
      ultimately show ?thesis using bl b(3) by blast
    next
      case plus
      then have "scan_digits False base cs = Scanned v r"
        using assms(1) Cons by (simp add: scan_unsigned_def)
      from scan_digits_sound [OF this assms(2)] obtain body where
        b: "cs = body @ r" "digits_text base body" "r = [] \<or> \<not> is_digit base (hd r)" by blast
      have "number_text base (''+'' @ body)"
        using b(2) by (intro number_textI) (simp_all add: sign_text_def)
      moreover have "s = ws @ (''+'' @ body) @ r"
        using s Cons plus b(1) by simp
      ultimately show ?thesis using bl b(3) by blast
    next
      case none
      then have "scan_digits False base (c # cs) = Scanned v r"
        using assms(1) Cons by (simp add: scan_unsigned_def)
      from scan_digits_sound [OF this assms(2)] obtain body where
        b: "c # cs = body @ r" "digits_text base body" "r = [] \<or> \<not> is_digit base (hd r)" by blast
      have "number_text base ([] @ body)"
        using b(2) by (intro number_textI) (simp_all add: sign_text_def)
      moreover have "s = ws @ ([] @ body) @ r"
        using s Cons b(1) by simp
      ultimately show ?thesis using bl b(3) by blast
    qed
  qed
qed

lemma digits_text_head:
  assumes "digits_text base body"
  obtains c t where "body = c # t" and "\<not> isspace c" and "c \<noteq> CHR ''-''" and "c \<noteq> CHR ''+''"
    and "c \<noteq> CHR ''x''" and "c \<noteq> CHR ''X''"
proof -
  from assms consider (plain) "body \<noteq> []" "list_all (is_digit base) body"
    | (hex) x ds where "body = CHR ''0'' # x # ds"
    by (auto simp: digits_text_def)
  then show thesis
  proof cases
    case plain
    then obtain c t where b: "body = c # t" by (cases body) auto
    then have "is_digit base c" using plain(2) by simp
    from digit_not_special [OF this] show ?thesis using b that by blast
  next
    case hex
    then show ?thesis using that [of "CHR ''0''" "x # ds"] by (simp add: isspace_def)
  qed
qed

lemma number_text_head:
  assumes "number_text base n"
  obtains c t where "n = c # t" and "\<not> isspace c" and "c \<noteq> CHR ''x''" and "c \<noteq> CHR ''X''"
proof -
  from assms obtain sg body where n: "n = sg @ body" and sg: "sign_text sg"
    and body: "digits_text base body" by (auto simp: number_text_def)
  from body obtain c t where b: "body = c # t" "\<not> isspace c" "c \<noteq> CHR ''x''" "c \<noteq> CHR ''X''"
    by (rule digits_text_head)
  from sg consider "sg = []" | "sg = ''-''" | "sg = ''+''" by (auto simp: sign_text_def)
  then show thesis
  proof cases
    case 1
    then show ?thesis using n b that by simp
  next
    case 2
    then show ?thesis using n that [of "CHR ''-''" body] by (simp add: isspace_def)
  next
    case 3
    then show ?thesis using n that [of "CHR ''+''" body] by (simp add: isspace_def)
  qed
qed

lemma scan_digits_some:
  assumes "digits_text base body"
  shows "\<exists>v r. scan_digits neg base (body @ rest) = Scanned v r"
proof -
  from assms consider (plain) "body \<noteq> []" "list_all (is_digit base) body"
    | (hex) x ds where "base = 16" "body = CHR ''0'' # x # ds" "x = CHR ''x'' \<or> x = CHR ''X''"
    by (auto simp: digits_text_def)
  then show ?thesis
  proof cases
    case plain
    then obtain c t where b: "body = c # t" by (cases body) auto
    then have c: "is_digit base c" using plain(2) by simp
    show ?thesis
    proof (cases "c = CHR ''0''")
      case True
      then show ?thesis by (simp add: scan_digits_def b Let_def)
    next
      case False
      then show ?thesis using c by (simp add: scan_digits_def b Let_def)
    qed
  next
    case hex
    then show ?thesis by (auto simp: scan_digits_def Let_def)
  qed
qed

lemma scan_digits_exact:
  assumes "digits_text base body" and "stops base rest"
  shows "\<exists>v. scan_digits neg base (body @ rest) = Scanned v rest"
proof -
  from assms(1) consider (plain) "body \<noteq> []" "list_all (is_digit base) body"
    | (hex) x ds where "base = 16" "body = CHR ''0'' # x # ds" "x = CHR ''x'' \<or> x = CHR ''X''"
        "list_all (is_digit 16) ds"
    by (auto simp: digits_text_def)
  then show ?thesis
  proof cases
    case plain
    then show ?thesis using scan_digits_plain [OF plain(2,1) assms(2), of neg] by blast
  next
    case hex
    have "dropWhile (is_digit 16) (ds @ rest) = rest"
      using takeWhile_stops(2) [of 16 ds rest] hex(4) assms(2) hex(1) by simp
    then show ?thesis
      using hex(1,2,3) by (auto simp: scan_digits_def Let_def)
  qed
qed

lemma scan_unsigned_number:
  assumes "number_text base n"
  shows "\<exists>v r. scan_unsigned base (n @ rest) = Scanned v r"
    and "stops base rest \<Longrightarrow> \<exists>v. scan_unsigned base (n @ rest) = Scanned v rest"
proof -
  from assms obtain sg body where n: "n = sg @ body" and sg: "sign_text sg"
    and body: "digits_text base body" by (auto simp: number_text_def)
  from body obtain c t where b: "body = c # t" "\<not> isspace c" "c \<noteq> CHR ''-''" "c \<noteq> CHR ''+''"
    by (rule digits_text_head)
  from sg consider "sg = []" | "sg = ''-''" | "sg = ''+''" by (auto simp: sign_text_def)
  then have "\<exists>neg. scan_unsigned base (n @ rest) = scan_digits neg base (body @ rest)"
  proof cases
    case 1
    have "scan_unsigned base (c # (t @ rest)) = scan_digits False base (c # (t @ rest))"
      using b by (intro scan_unsigned_unsigned)
    then show ?thesis using 1 n b(1) by auto
  next
    case 2
    then show ?thesis using n scan_unsigned_signed(1) [of base "body @ rest"] by auto
  next
    case 3
    then show ?thesis using n scan_unsigned_signed(2) [of base "body @ rest"] by auto
  qed
  then obtain neg where eq: "scan_unsigned base (n @ rest) = scan_digits neg base (body @ rest)"
    by blast
  show "\<exists>v r. scan_unsigned base (n @ rest) = Scanned v r"
    unfolding eq using body by (rule scan_digits_some)
  show "\<exists>v. scan_unsigned base (n @ rest) = Scanned v rest" if "stops base rest"
    unfolding eq using body that by (rule scan_digits_exact)
qed

lemma skip_blank:
  assumes "blank ws" and "\<not> isspace c"
  shows "dropWhile isspace (ws @ c # t) = c # t"
proof -
  have "\<And>x. x \<in> set ws \<Longrightarrow> isspace x"
    using assms(1) by (simp add: blank_def list_all_iff)
  then show ?thesis using assms(2) by (simp add: dropWhile_append2)
qed

lemma split_blank: "\<exists>ws. s = ws @ dropWhile isspace s \<and> blank ws"
proof -
  have "s = takeWhile isspace s @ dropWhile isspace s" by simp
  moreover have "blank (takeWhile isspace s)"
    by (auto simp: blank_def list_all_iff dest: set_takeWhileD)
  ultimately show ?thesis by blast
qed

lemma blank_append: "blank a \<Longrightarrow> blank b \<Longrightarrow> blank (a @ b)"
  by (simp add: blank_def)

lemma sscanf2_accepts_iff:
  assumes "is_digit base1 (CHR ''0'')" and "is_digit base2 (CHR ''0'')"
  shows "(\<exists>a b. sscanf2 kw base1 base2 l = Assigned2 a b) = starts_command kw base1 base2 l"
proof
  assume "\<exists>a b. sscanf2 kw base1 base2 l = Assigned2 a b"
  then obtain a b where acc: "sscanf2 kw base1 base2 l = Assigned2 a b" by blast
  then obtain u s1 where lit: "scan_literal kw l = Scanned u s1"
    by (cases "scan_literal kw l") (simp_all add: sscanf2_def)
  from acc lit obtain a' s2 where
    one: "scan_unsigned base1 (dropWhile isspace s1) = Scanned a' s2"
    by (cases "scan_unsigned base1 (dropWhile isspace s1)") (simp_all add: sscanf2_def)
  from acc lit one obtain b' s3 where
    two: "scan_unsigned base2 (dropWhile isspace s2) = Scanned b' s3"
    by (cases "scan_unsigned base2 (dropWhile isspace s2)") (simp_all add: sscanf2_def)
  have l: "l = kw @ s1" using lit by (rule scan_literal_sound)
  obtain wa where wa: "s1 = wa @ dropWhile isspace s1" "blank wa"
    using split_blank [of s1] by blast
  from scan_unsigned_sound [OF one assms(1)] obtain wb n1 where
    n1: "dropWhile isspace s1 = wb @ n1 @ s2" "blank wb" "number_text base1 n1"
      "s2 = [] \<or> \<not> is_digit base1 (hd s2)" by blast
  obtain wc where wc: "s2 = wc @ dropWhile isspace s2" "blank wc"
    using split_blank [of s2] by blast
  from scan_unsigned_sound [OF two assms(2)] obtain wd n2 where
    n2: "dropWhile isspace s2 = wd @ n2 @ s3" "blank wd" "number_text base2 n2" by blast
  have s2: "s2 = (wc @ wd) @ n2 @ s3" using wc(1) n2(1) by simp
  have s1: "s1 = (wa @ wb) @ n1 @ s2" using wa(1) n1(1) by simp
  have whole: "l = kw @ (wa @ wb) @ n1 @ (wc @ wd) @ n2 @ s3"
    using l s1 s2 by simp
  have sep: "wc @ wd = [] \<longrightarrow> \<not> is_digit base1 (hd n2)"
  proof
    assume e: "wc @ wd = []"
    obtain c t where "n2 = c # t" using n2(3) by (rule number_text_head)
    then have "s2 = c # (t @ s3)" using s2 e by simp
    then show "\<not> is_digit base1 (hd n2)" using n1(4) \<open>n2 = c # t\<close> by simp
  qed
  show "starts_command kw base1 base2 l"
    unfolding starts_command_def
    using whole blank_append [OF wa(2) n1(2)] n1(3) blank_append [OF wc(2) n2(2)] n2(3) sep
    by blast
next
  assume "starts_command kw base1 base2 l"
  then obtain ws1 n1 ws2 n2 rest where
    l: "l = kw @ ws1 @ n1 @ ws2 @ n2 @ rest"
    and b1: "blank ws1" and t1: "number_text base1 n1"
    and b2: "blank ws2" and t2: "number_text base2 n2"
    and sep: "ws2 = [] \<longrightarrow> \<not> is_digit base1 (hd n2)"
    by (auto simp: starts_command_def)
  obtain c1 r1 where h1: "n1 = c1 # r1" "\<not> isspace c1"
    using t1 by (rule number_text_head)
  obtain c2 r2 where h2: "n2 = c2 # r2" "\<not> isspace c2" "c2 \<noteq> CHR ''x''" "c2 \<noteq> CHR ''X''"
    using t2 by (rule number_text_head)
  have lit: "scan_literal kw l = Scanned () (ws1 @ n1 @ ws2 @ n2 @ rest)"
    unfolding l by (rule scan_literal_prefix)
  have skip1: "dropWhile isspace (ws1 @ n1 @ ws2 @ n2 @ rest) = n1 @ ws2 @ n2 @ rest"
    using skip_blank [OF b1 h1(2), of "r1 @ ws2 @ n2 @ rest"] by (simp add: h1(1))
  have st: "stops base1 (ws2 @ n2 @ rest)"
  proof (cases ws2)
    case Nil
    then show ?thesis using sep h2 by (simp add: stops_def)
  next
    case (Cons w ws)
    then have "isspace w" using b2 by (simp add: blank_def)
    then show ?thesis using Cons space_special [of w base1] by (simp add: stops_def)
  qed
  obtain a where one: "scan_unsigned base1 (n1 @ ws2 @ n2 @ rest) = Scanned a (ws2 @ n2 @ rest)"
    using scan_unsigned_number(2) [OF t1 st] by blast
  have skip2: "dropWhile isspace (ws2 @ n2 @ rest) = n2 @ rest"
    using skip_blank [OF b2 h2(2), of "r2 @ rest"] by (simp add: h2(1))
  obtain b s3 where two: "scan_unsigned base2 (n2 @ rest) = Scanned b s3"
    using scan_unsigned_number(1) [OF t2, of rest] by blast
  have "sscanf2 kw base1 base2 l = Assigned2 a b"
    unfolding sscanf2_def lit by (simp only: scanned.case skip1 one skip2 two)
  then show "\<exists>a b. sscanf2 kw base1 base2 l = Assigned2 a b" by blast
qed

section \<open>Properties of processCommand\<close>

lemma skip_space_digits:
  assumes "list_all (is_digit base) ds" and "ds \<noteq> []"
  shows "dropWhile isspace (CHR '' '' # ds @ rest) = ds @ rest"
proof -
  obtain c cs where ds: "ds = c # cs" using assms(2) by (cases ds) auto
  have "is_digit base c" using assms(1) ds by simp
  then have "\<not> isspace c" using digit_not_special by blast
  then show ?thesis by (simp add: ds isspace_def)
qed

lemma sscanf2_prefix:
  assumes "list_all (is_digit base1) a" and "a \<noteq> []"
    and "list_all (is_digit base2) b" and "b \<noteq> []"
    and "number_end rest"
  shows "sscanf2 kw base1 base2 (kw @ CHR '' '' # a @ CHR '' '' # b @ rest) =
         Assigned2 (strtoul_value False (digits_value base1 a))
                   (strtoul_value False (digits_value base2 b))"
proof -
  have first: "scan_unsigned base1 (a @ CHR '' '' # b @ rest) =
      Scanned (strtoul_value False (digits_value base1 a)) (CHR '' '' # b @ rest)"
    using assms(1,2) by (intro scan_unsigned_digits) (simp_all add: number_end_def)
  have second: "scan_unsigned base2 (b @ rest) =
      Scanned (strtoul_value False (digits_value base2 b)) rest"
    using assms(3,4,5) by (rule scan_unsigned_digits)
  show ?thesis
    unfolding sscanf2_def scan_literal_prefix
    by (simp only: scanned.case skip_space_digits [OF assms(1,2)] first
          skip_space_digits [OF assms(3,4)] second)
qed


lemma processCommand_match:
  assumes "sscanf2 ''match'' 16 10 l = Assigned2 h n"
  shows "processCommand e socket w l =
     (case search e h (ucast n) (w\<lparr>diags := diags w @ [WillSearch h (ucast n)]\<rparr>) of
        Inl f \<Rightarrow> Inl f
      | Inr w' \<Rightarrow> Inr (send_results e (GBLsearchResults w') w'))"
  unfolding processCommand_def assms by (simp add: Let_def)

lemma processCommand_add:
  assumes "rc_of (sscanf2 ''match'' 16 10 l) \<noteq> 2" and "sscanf2 ''add'' 10 16 l = Assigned2 i h"
  shows "processCommand e socket w l = add i h (w\<lparr>diags := diags w @ [WillAdd i h]\<rparr>)"
  unfolding processCommand_def using assms
  by (cases "sscanf2 ''match'' 16 10 l") simp_all

lemma match_scan_of_add: "sscanf2 ''match'' 16 10 (''add'' @ s) = Assigned0"
  by (simp add: sscanf2_def)

lemma scan_samples:
  "sscanf2 ''match'' 16 10 ''add 1 zz'' = Assigned0"
  "sscanf2 ''add'' 10 16 ''add 1 zz'' = Assigned1 1"
  "sscanf2 ''match'' 16 10 ''add 5 ff'' = Assigned0"
  "sscanf2 ''add'' 10 16 ''add 5 ff'' = Assigned2 5 255"
  "sscanf2 ''match'' 16 10 ''add 1 2 extra'' = Assigned0"
  "sscanf2 ''add'' 10 16 ''add 1 2 extra'' = Assigned2 1 2"
  "sscanf2 ''match'' 16 10 ''add 1 0x'' = Assigned0"
  "sscanf2 ''add'' 10 16 ''add 1 0x'' = Assigned2 1 0"
  by (simp_all add: sscanf2_def scan_unsigned_def scan_digits_def isspace_def is_digit_def digit_of_def
      digits_value_def strtoul_value_def Let_def)

lemma add_to_empty2:
  "add i h \<lparr>GBLnumCores = 2, GBLnodeLists = [[], []], GBLsearchResults = r, sock_out = s,
      diags = g\<rparr> =
   Inr \<lparr>GBLnumCores = 2, GBLnodeLists = [[\<lparr>Node.dbId = i, pHash = h\<rparr>], []],
      GBLsearchResults = r, sock_out = s, diags = g\<rparr>"
  by (simp add: add_def add_loop.simps Let_def)

text \<open>
  C10. A line that starts as a command and goes on, after a space, with any text is
  processed as that command: \<open>match <hex> <decimal>\<close> runs the search for these two
  numbers and \<open>add <decimal> <hex>\<close> calls \<open>add\<close> with them, exactly as the line
  without the extra text does.
\<close>

theorem extra_text_is_ignored:
  assumes "list_all (is_digit 16) h" and "h \<noteq> []"
    and "list_all (is_digit 10) d" and "d \<noteq> []"
  shows "processCommand e socket w (''match '' @ h @ '' '' @ d @ '' '' @ extra) =
           (case search e (strtoul_value False (digits_value 16 h))
                   (ucast (strtoul_value False (digits_value 10 d)))
                   (w\<lparr>diags := diags w @ [WillSearch (strtoul_value False (digits_value 16 h))
                                 (ucast (strtoul_value False (digits_value 10 d)))]\<rparr>) of
              Inl f \<Rightarrow> Inl f
            | Inr w' \<Rightarrow> Inr (send_results e (GBLsearchResults w') w'))
       \<and> processCommand e socket w (''match '' @ h @ '' '' @ d @ '' '' @ extra) =
           processCommand e socket w (''match '' @ h @ '' '' @ d)
       \<and> processCommand e socket w (''add '' @ d @ '' '' @ h @ '' '' @ extra) =
           add (strtoul_value False (digits_value 10 d)) (strtoul_value False (digits_value 16 h))
             (w\<lparr>diags := diags w @ [WillAdd (strtoul_value False (digits_value 10 d))
                                     (strtoul_value False (digits_value 16 h))]\<rparr>)
       \<and> processCommand e socket w (''add '' @ d @ '' '' @ h @ '' '' @ extra) =
           processCommand e socket w (''add '' @ d @ '' '' @ h)"
proof -
  let ?H = "strtoul_value False (digits_value 16 h)"
  let ?D = "strtoul_value False (digits_value 10 d)"
  have ne: "number_end (CHR '' '' # extra)" "number_end []"
    by (simp_all add: number_end_def)
  have m_shape: "''match '' @ h @ '' '' @ d @ '' '' @ extra =
                 ''match'' @ CHR '' '' # h @ CHR '' '' # d @ (CHR '' '' # extra)"
    "''match '' @ h @ '' '' @ d = ''match'' @ CHR '' '' # h @ CHR '' '' # d @ []"
    by simp_all
  have a_shape: "''add '' @ d @ '' '' @ h @ '' '' @ extra =
                 ''add'' @ CHR '' '' # d @ CHR '' '' # h @ (CHR '' '' # extra)"
    "''add '' @ d @ '' '' @ h = ''add'' @ CHR '' '' # d @ CHR '' '' # h @ []"
    by simp_all
  have m1: "sscanf2 ''match'' 16 10 (''match '' @ h @ '' '' @ d @ '' '' @ extra) = Assigned2 ?H ?D"
    unfolding m_shape(1) using assms ne(1) by (rule sscanf2_prefix)
  have m2: "sscanf2 ''match'' 16 10 (''match '' @ h @ '' '' @ d) = Assigned2 ?H ?D"
    unfolding m_shape(2) using assms ne(2) by (rule sscanf2_prefix)
  have a1: "sscanf2 ''add'' 10 16 (''add '' @ d @ '' '' @ h @ '' '' @ extra) = Assigned2 ?D ?H"
    unfolding a_shape(1) using assms(3,4,1,2) ne(1) by (rule sscanf2_prefix)
  have a2: "sscanf2 ''add'' 10 16 (''add '' @ d @ '' '' @ h) = Assigned2 ?D ?H"
    unfolding a_shape(2) using assms(3,4,1,2) ne(2) by (rule sscanf2_prefix)
  have n1: "rc_of (sscanf2 ''match'' 16 10 (''add '' @ d @ '' '' @ h @ '' '' @ extra)) \<noteq> 2"
    unfolding a_shape(1) match_scan_of_add by simp
  have n2: "rc_of (sscanf2 ''match'' 16 10 (''add '' @ d @ '' '' @ h)) \<noteq> 2"
    unfolding a_shape(2) match_scan_of_add by simp
  show ?thesis
    unfolding processCommand_match [OF m1] processCommand_match [OF m2]
      processCommand_add [OF n1 a1] processCommand_add [OF n2 a2]
    by simp
qed

theorem extra_text_is_ignored_witness:
  "processCommand quiet_env 4 (init_state 2) ''match ff 3 extra'' =
     processCommand quiet_env 4 (init_state 2) ''match ff 3''
   \<and> processCommand quiet_env 4 (init_state 2) ''add 3 ff extra'' =
       Inr \<lparr>GBLnumCores = 2, GBLnodeLists = [[\<lparr>Node.dbId = 3, pHash = 255\<rparr>], []],
            GBLsearchResults = [], sock_out = (\<lambda>fd. []), diags = [WillAdd 3 255]\<rparr>
   \<and> \<not> match_grammar ''match ff 3 extra'' \<and> \<not> add_grammar ''match ff 3 extra''
   \<and> \<not> match_grammar ''add 3 ff extra'' \<and> \<not> add_grammar ''add 3 ff extra''"
proof -
  have h: "list_all (is_digit 16) ''ff''" "''ff'' \<noteq> []"
    and d: "list_all (is_digit 10) ''3''" "''3'' \<noteq> []"
    by (simp_all add: is_digit_def digit_of_def Let_def)
  have v: "strtoul_value False (digits_value 10 ''3'') = 3"
    "strtoul_value False (digits_value 16 ''ff'') = 255"
    by (simp_all add: strtoul_value_def digits_value_def digit_of_def Let_def)
  have t: "tokens ''match ff 3 extra'' = [''match'', ''ff'', ''3'', ''extra'']"
    "tokens ''add 3 ff extra'' = [''add'', ''3'', ''ff'', ''extra'']"
    by (simp_all add: tokens_def isspace_def)
  note x = extra_text_is_ignored [OF h d, of quiet_env 4 "init_state 2" "''extra''", unfolded v]
  have a: "processCommand quiet_env 4 (init_state 2) ''match ff 3 extra'' =
     processCommand quiet_env 4 (init_state 2) ''match ff 3''"
    using x [THEN conjunct2, THEN conjunct1] by simp
  have b: "processCommand quiet_env 4 (init_state 2) ''add 3 ff extra'' =
       Inr \<lparr>GBLnumCores = 2, GBLnodeLists = [[\<lparr>Node.dbId = 3, pHash = 255\<rparr>], []],
            GBLsearchResults = [], sock_out = (\<lambda>fd. []), diags = [WillAdd 3 255]\<rparr>"
    using x [THEN conjunct2, THEN conjunct2, THEN conjunct1]
    by (simp add: init_state_2 add_to_empty2)
  show ?thesis
    using a b by (simp add: match_grammar_def add_grammar_def t)
qed








lemma digit_zero: "is_digit 10 (CHR ''0'')" "is_digit 16 (CHR ''0'')"
  by (simp_all add: is_digit_def digit_of_def Let_def)






text \<open>
  A second line of the same kind: \<open>add 1 0x\<close>, whose hash has no digit behind the
  \<open>0x\<close>. It is outside the add grammar, begins with a command as \<open>sscanf\<close> reads one,
  and inserts a node with the hash 0.
\<close>

lemma bare_hex_prefix_is_executed:
  "\<not> match_grammar ''add 1 0x'' \<and> \<not> add_grammar ''add 1 0x''
   \<and> starts_command ''add'' 10 16 ''add 1 0x''
   \<and> processCommand quiet_env 4 (init_state 2) ''add 1 0x'' =
       Inr ((init_state 2)\<lparr>GBLnodeLists := [[\<lparr>Node.dbId = 1, pHash = 0\<rparr>], []],
                            diags := [WillAdd 1 0]\<rparr>)"
proof -
  have t: "tokens ''add 1 0x'' = [''add'', ''1'', ''0x'']"
    by (simp add: tokens_def isspace_def)
  have g: "\<not> match_grammar ''add 1 0x'' \<and> \<not> add_grammar ''add 1 0x''"
    by (simp add: match_grammar_def add_grammar_def t is_number_def is_digit_def digit_of_def)
  have "\<exists>a b. sscanf2 ''add'' 10 16 ''add 1 0x'' = Assigned2 a b"
    unfolding scan_samples by simp
  then have s: "starts_command ''add'' 10 16 ''add 1 0x''"
    unfolding sscanf2_accepts_iff [OF digit_zero(1) digit_zero(2)] .
  have p: "processCommand quiet_env 4 (init_state 2) ''add 1 0x'' =
       Inr ((init_state 2)\<lparr>GBLnodeLists := [[\<lparr>Node.dbId = 1, pHash = 0\<rparr>], []],
                            diags := [WillAdd 1 0]\<rparr>)"
    unfolding processCommand_def scan_samples init_state_2 by (simp add: add_to_empty2)
  show ?thesis using g s p by simp
qed

section \<open>The response to a match\<close>

lemma digit_char_value: "d < 10 \<Longrightarrow> digit_of 10 (digit_char d) = Some d"
proof -
  assume "d < 10"
  then have "d = 0 \<or> d = 1 \<or> d = 2 \<or> d = 3 \<or> d = 4 \<or> d = 5 \<or> d = 6
    \<or> d = 7 \<or> d = 8 \<or> d = 9" by arith
  then show ?thesis
    by (elim disjE) (simp_all add: digit_char_def digit_of_def Let_def)
qed

lemma digits_value_snoc:
  "digit_of base c = Some d \<Longrightarrow> digits_value base (ds @ [c]) = digits_value base ds * base + d"
  by (simp add: digits_value_def)

lemma digit_char_nonzero: "0 < d \<Longrightarrow> d < 10 \<Longrightarrow> digit_char d \<noteq> CHR ''0''"
proof -
  assume "0 < d" and "d < 10"
  then have "d = 1 \<or> d = 2 \<or> d = 3 \<or> d = 4 \<or> d = 5 \<or> d = 6
    \<or> d = 7 \<or> d = 8 \<or> d = 9" by arith
  then show ?thesis
    by (elim disjE) (simp_all add: digit_char_def)
qed

lemma show_dec_decimal: "decimal_text n (show_dec n)"
proof (induction n rule: show_dec.induct)
  case (1 n)
  show ?case
  proof (cases "n < 10")
    case True
    then have sd: "show_dec n = [digit_char n]" by (subst show_dec.simps) simp
    have hd: "[digit_char n] = ''0'' \<or> digit_char n \<noteq> CHR ''0''"
    proof (cases "n = 0")
      case True
      then show ?thesis by (simp add: digit_char_def)
    next
      case False
      then show ?thesis using digit_char_nonzero [of n] True by simp
    qed
    show ?thesis
      unfolding sd decimal_text_def
      using digit_char_value [OF True] hd
      by (simp add: is_digit_def digits_value_def)
  next
    case False
    have d: "digit_of 10 (digit_char (n mod 10)) = Some (n mod 10)"
      by (rule digit_char_value) simp
    have sd: "show_dec n = show_dec (n div 10) @ [digit_char (n mod 10)]"
      using False by (subst show_dec.simps) simp
    from "1.IH" [OF False] have ih: "show_dec (n div 10) \<noteq> []"
      "list_all (is_digit 10) (show_dec (n div 10))"
      "digits_value 10 (show_dec (n div 10)) = n div 10"
      "show_dec (n div 10) = ''0'' \<or> hd (show_dec (n div 10)) \<noteq> CHR ''0''"
      by (simp_all add: decimal_text_def)
    have pos: "0 < n div 10" using False by simp
    have "show_dec (n div 10) \<noteq> ''0''"
    proof
      assume z: "show_dec (n div 10) = ''0''"
      have "digits_value 10 ''0'' = 0" by (simp add: digits_value_def digit_of_def)
      with ih(3) z pos show False by simp
    qed
    with ih(4) have hd: "hd (show_dec (n div 10)) \<noteq> CHR ''0''" by simp
    show ?thesis
      unfolding sd decimal_text_def
      using ih(1,2,3) d hd by (simp add: digits_value_snoc [OF d] is_digit_def)
  qed
qed

lemma response_line_format:
  "\<exists>a b. response_line m = a @ '' '' @ b @ [CHR 0x0A]
         \<and> decimal_text (unat (Match.dbId m)) a
         \<and> decimal_text (nat (distance m mod 2 ^ 32)) b"
  unfolding response_line_def using show_dec_decimal by blast

lemma send_results_elsewhere:
  "fd \<noteq> acceptedSocket e \<Longrightarrow> sock_out (send_results e ms w) fd = sock_out w fd"
proof (induction ms arbitrary: w)
  case Nil
  show ?case by simp
next
  case (Cons m ms)
  let ?a = "acceptedSocket e"
  let ?n = "send_rc e ?a (sock_out w ?a) (response_line m)"
  let ?w' = "w\<lparr>sock_out := (sock_out w)(?a := sock_out w ?a @ take (nat ?n) (response_line m))\<rparr>"
  show ?case
  proof (cases "?n = int (length (response_line m))")
    case True
    then have "send_results e (m # ms) w = send_results e ms ?w'"
      by (simp add: Let_def)
    then show ?thesis using Cons.IH [OF Cons.prems, of ?w'] Cons.prems by simp
  next
    case False
    then show ?thesis using Cons.prems by (simp add: Let_def)
  qed
qed

lemma send_results_reliable:
  assumes "\<forall>sent buf. send_rc e (acceptedSocket e) sent buf = int (length buf)"
  shows "sock_out (send_results e ms w) (acceptedSocket e) =
         sock_out w (acceptedSocket e) @ concat (map response_line ms)"
proof (induction ms arbitrary: w)
  case Nil
  show ?case by simp
next
  case (Cons m ms)
  show ?case
    using assms by (simp add: Let_def Cons.IH)
qed

lemma send_results_one:
  "sock_out (send_results e [m] w) (acceptedSocket e) =
   sock_out w (acceptedSocket e)
   @ take (nat (send_rc e (acceptedSocket e) (sock_out w (acceptedSocket e)) (response_line m)))
       (response_line m)"
  by (simp add: Let_def)

lemma response_line_100_0:
  "response_line \<lparr>Match.dbId = 100, distance = 0\<rparr> = ''100 0'' @ [CHR 0x0A]"
  by (simp add: response_line_def show_dec.simps digit_char_def)

lemma scenario_scans:
  "sscanf2 ''add'' 10 16 ''add 100 000000000000000f'' = Assigned2 100 15"
  "sscanf2 ''match'' 16 10 ''add 100 000000000000000f'' = Assigned0"
  "sscanf2 ''match'' 16 10 ''match 000000000000000f 0'' = Assigned2 15 0"
  by (simp_all add: sscanf2_def scan_unsigned_def scan_digits_def isspace_def is_digit_def
      digit_of_def digits_value_def strtoul_value_def Let_def)

text \<open>
  C5. With two shards and no entries: the line \<open>add 100 000000000000000f\<close> leaves one
  node, with the id 100 in its id field and the hash \<open>0xf\<close> in its hash field; the line
  \<open>match 000000000000000f 0\<close> then finds this node at distance 0, and the response is
  formatted as \<open>100 0\<close> and a newline. But \<open>send\<close> is called on the descriptor
  \<open>acceptedSocket\<close> and not on \<open>socket\<close>, the connection the command came on: whenever
  the two differ, neither this command nor any other writes anything to the connection,
  and what \<open>send\<close> takes of the line is put on \<open>acceptedSocket\<close>. Apart from the
  descriptor the response is as described: every line is the id, a space, the distance
  and a newline, both numbers in decimal, and where \<open>send\<close> takes every line whole, the
  lines follow each other in the order of the vector, none for an empty vector.
\<close>

theorem response_misses_the_connection:
  assumes spawn: "\<forall>i<2. pthread_create_rc e i = 0"
    and other: "acceptedSocket e \<noteq> socket"
  shows "\<exists>w1 w2.
           processCommand e socket (init_state 2) ''add 100 000000000000000f'' = Inr w1
         \<and> GBLnodeLists w1 = [[\<lparr>Node.dbId = 100, pHash = 15\<rparr>], []]
         \<and> processCommand e socket w1 ''match 000000000000000f 0'' = Inr w2
         \<and> GBLsearchResults w2 = [\<lparr>Match.dbId = 100, distance = 0\<rparr>]
         \<and> sock_out w2 socket = []
         \<and> sock_out w2 (acceptedSocket e) =
             take (nat (send_rc e (acceptedSocket e) [] (''100 0'' @ [CHR 0x0A])))
               (''100 0'' @ [CHR 0x0A])
         \<and> (\<forall>ms w. sock_out (send_results e ms w) socket = sock_out w socket)
         \<and> (\<forall>m. \<exists>a b. response_line m = a @ '' '' @ b @ [CHR 0x0A]
                      \<and> decimal_text (unat (Match.dbId m)) a
                      \<and> decimal_text (nat (distance m mod 2 ^ 32)) b)
         \<and> ((\<forall>sent buf. send_rc e (acceptedSocket e) sent buf = int (length buf)) \<longrightarrow>
              (\<forall>ms w. sock_out (send_results e ms w) (acceptedSocket e) =
                      sock_out w (acceptedSocket e) @ concat (map response_line ms)))"
proof -
  define w0 where "w0 = (init_state 2)\<lparr>diags := [WillAdd 100 15]\<rparr>"
  define w1 where "w1 = w0\<lparr>GBLnodeLists := [[\<lparr>Node.dbId = 100, pHash = 15\<rparr>], []]\<rparr>"
  define w1' where "w1' = w1\<lparr>diags := diags w1 @ [WillSearch 15 0]\<rparr>"
  define w2 where "w2 = w1'\<lparr>GBLsearchResults := [\<lparr>Match.dbId = 100, distance = 0\<rparr>]\<rparr>"
  define w3 where "w3 = send_results e (GBLsearchResults w2) w2"
  have add: "add 100 15 w0 = Inr w1"
    unfolding w0_def w1_def init_state_2
    by (simp add: add_def add_loop.simps Let_def)
  have step1: "processCommand e socket (init_state 2) ''add 100 000000000000000f'' = Inr w1"
    unfolding processCommand_def scenario_scans using add by (simp add: w0_def init_state_2)
  have ok: "store_ok w1'"
    by (simp add: store_ok_def w1'_def w1_def w0_def init_state_2)
  have sp: "\<forall>i<unat (GBLnumCores w1'). pthread_create_rc e i = 0"
    using spawn by (simp add: w1'_def w1_def w0_def init_state_2)
  obtain found where s: "search e 15 0 w1' = Inr (w1'\<lparr>GBLsearchResults := found\<rparr>)"
    and m: "mset found = expected_matches 15 (uint (0 :: 8 word)) (GBLnodeLists w1')"
    using search_exact [OF ok sp, of 15 0] by blast
  have "expected_matches 15 (uint (0 :: 8 word)) (GBLnodeLists w1') =
        {#\<lparr>Match.dbId = 100, distance = 0\<rparr>#}"
    by (simp add: expected_matches_def match_of_def w1'_def w1_def w0_def init_state_2
        hamming_samples)
  with m have found: "found = [\<lparr>Match.dbId = 100, distance = 0\<rparr>]"
    by (simp add: mset_single_iff)
  have search: "search e 15 0 w1' = Inr w2"
    unfolding s found w2_def ..
  have step2: "processCommand e socket w1 ''match 000000000000000f 0'' = Inr w3"
    unfolding processCommand_def scenario_scans using search by (simp add: w1'_def w3_def)
  have lists: "GBLnodeLists w1 = [[\<lparr>Node.dbId = 100, pHash = 15\<rparr>], []]"
    by (simp add: w1_def)
  have res2: "GBLsearchResults w2 = [\<lparr>Match.dbId = 100, distance = 0\<rparr>]"
    by (simp add: w2_def)
  have out2: "sock_out w2 = (\<lambda>fd. [])"
    by (simp add: w2_def w1'_def w1_def w0_def init_state_2)
  have results: "GBLsearchResults w3 = [\<lparr>Match.dbId = 100, distance = 0\<rparr>]"
    unfolding w3_def res2 by (simp add: Let_def res2)
  have elsewhere: "\<forall>ms w. sock_out (send_results e ms w) socket = sock_out w socket"
    using other by (simp add: send_results_elsewhere)
  have none: "sock_out w3 socket = []"
    unfolding w3_def using elsewhere out2 by simp
  have there: "sock_out w3 (acceptedSocket e) =
             take (nat (send_rc e (acceptedSocket e) [] (''100 0'' @ [CHR 0x0A])))
               (''100 0'' @ [CHR 0x0A])"
    unfolding w3_def res2 send_results_one by (simp add: out2 response_line_100_0)
  have format: "\<forall>m. \<exists>a b. response_line m = a @ '' '' @ b @ [CHR 0x0A]
                      \<and> decimal_text (unat (Match.dbId m)) a
                      \<and> decimal_text (nat (distance m mod 2 ^ 32)) b"
    using response_line_format by blast
  have order: "(\<forall>sent buf. send_rc e (acceptedSocket e) sent buf = int (length buf)) \<longrightarrow>
              (\<forall>ms w. sock_out (send_results e ms w) (acceptedSocket e) =
                      sock_out w (acceptedSocket e) @ concat (map response_line ms))"
    using send_results_reliable by blast
  show ?thesis
    using step1 lists step2 results none there elsewhere format order by blast
qed

theorem response_misses_the_connection_witness:
  "\<exists>w1 w2. processCommand quiet_env 4 (init_state 2) ''add 100 000000000000000f'' = Inr w1
     \<and> processCommand quiet_env 4 w1 ''match 000000000000000f 0'' = Inr w2
     \<and> sock_out w2 4 = []
     \<and> sock_out w2 0 = ''100 0'' @ [CHR 0x0A]"
proof -
  have spawn: "\<forall>i<2. pthread_create_rc quiet_env i = 0"
    and other: "acceptedSocket quiet_env \<noteq> 4"
    by (simp_all add: quiet_env_def)
  have a: "acceptedSocket quiet_env = 0"
    and r: "send_rc quiet_env 0 [] (''100 0'' @ [CHR 0x0A]) = 6"
    by (simp_all add: quiet_env_def)
  show ?thesis
    using response_misses_the_connection [OF spawn other] unfolding a r by auto
qed

end
